theory Spec2Isabelle
  imports Complex_Main
begin

section \<open>PDF Merger: the page-removal parser and the merge worker\<close>

text \<open>
  A shallow embedding of \<^verbatim>\<open>src/project1.py\<close>: the method
  \<^verbatim>\<open>PdfMergerApp.apply_page_removal\<close> (the parser of the page-removal
  expression) and the thread body \<^verbatim>\<open>MergeWorker.run\<close> (the merge), with the
  helpers they call.

  Conventions of the model.
  \<^item> A Python \<^verbatim>\<open>str\<close> is a \<open>string\<close>, one \<open>char\<close> per code point; the model covers
    the code points below 256.
  \<^item> Python integers are \<open>int\<close>; counts and list positions are \<open>nat\<close>.
  \<^item> The set object \<^verbatim>\<open>self.excluded_pages\<close> lives in a store of set objects and is
    named by a reference: the application creates it once and afterwards only mutates it
    in place, and the worker receives the reference.
  \<^item> PyPDF2 and the file system are collaborators the code calls: the library is a pair
    of functions (reading a file's content into pages, rendering pages into a file's
    content), the file system maps a path to its content.
  \<^item> Exceptions are values; every \<^verbatim>\<open>try\<close>/\<^verbatim>\<open>except\<close> of the source is a case
    distinction of the model.
\<close>

subsection \<open>Python strings\<close>

type_synonym path = string

text \<open>\<^verbatim>\<open>s.split(sep)\<close> for a one-character separator: never the empty list.\<close>

fun split_on :: "char \<Rightarrow> string \<Rightarrow> string list" where
  "split_on sep [] = [[]]"
| "split_on sep (c # cs) =
     (if c = sep then [] # split_on sep cs
      else (case split_on sep cs of
              [] \<Rightarrow> [[c]]
            | t # ts \<Rightarrow> (c # t) # ts))"

text \<open>\<^verbatim>\<open>s.split(sep)[0]\<close> for a separator of any length: the text before the first
  occurrence of \<open>sep\<close>, the whole text when there is none.\<close>

fun before_sep :: "string \<Rightarrow> string \<Rightarrow> string" where
  "before_sep sep [] = []"
| "before_sep sep (c # cs) =
     (if take (length sep) (c # cs) = sep then [] else c # before_sep sep cs)"

text \<open>\<^verbatim>\<open>str(n)\<close> for a non-negative integer.\<close>

definition digit_char :: "nat \<Rightarrow> char" where
  "digit_char d = char_of (48 + d)"

function str_nat :: "nat \<Rightarrow> string" where
  "str_nat n = (if n < 10 then [digit_char n] else str_nat (n div 10) @ [digit_char (n mod 10)])"
  by pat_completeness auto
termination
  by (relation "measure id") auto

declare str_nat.simps [simp del]

subsection \<open>The builtin \<^verbatim>\<open>int(s)\<close> on a string\<close>

text \<open>
  \<^verbatim>\<open>int(s)\<close> in base 10 strips the whitespace around the literal, accepts one sign, then
  wants a digit, and after it digits with single underscores between them. Among the code
  points below 256 the whitespace it strips is \<^verbatim>\<open>\t \n \v \f \r\<close>, the space,
  \<^verbatim>\<open>\x85\<close> and \<^verbatim>\<open>\xa0\<close>, and the decimal digits are \<^verbatim>\<open>0\<close> to \<^verbatim>\<open>9\<close>. A literal with
  more than \<open>int_max_str_digits\<close> digits is refused (CPython's default limit). Everything
  else raises \<^verbatim>\<open>ValueError\<close>: the result \<open>None\<close>.
\<close>

definition int_isspace :: "char \<Rightarrow> bool" where
  "int_isspace c = ((of_char c :: nat) \<in> {9, 10, 11, 12, 13, 32, 133, 160})"

definition is_digit :: "char \<Rightarrow> bool" where
  "is_digit c = (48 \<le> (of_char c :: nat) \<and> (of_char c :: nat) \<le> 57)"

definition digit_val :: "char \<Rightarrow> int" where
  "digit_val c = int (of_char c) - 48"

definition int_max_str_digits :: nat where
  "int_max_str_digits = 4300"

definition strip_space :: "string \<Rightarrow> string" where
  "strip_space s = rev (dropWhile int_isspace (rev (dropWhile int_isspace s)))"

fun int_digits :: "string \<Rightarrow> int \<Rightarrow> int option" where
  "int_digits [] acc = Some acc"
| "int_digits [c] acc = (if is_digit c then Some (10 * acc + digit_val c) else None)"
| "int_digits (c # d # cs) acc =
     (if is_digit c then int_digits (d # cs) (10 * acc + digit_val c)
      else if c = CHR ''_'' \<and> is_digit d then int_digits (d # cs) acc
      else None)"

definition int_unsigned :: "string \<Rightarrow> int option" where
  "int_unsigned body =
     (case body of
        [] \<Rightarrow> None
      | c # cs \<Rightarrow>
          if \<not> is_digit c then None
          else if int_max_str_digits < length (filter is_digit body) then None
          else int_digits body 0)"

definition py_int :: "string \<Rightarrow> int option" where
  "py_int s =
     (case strip_space s of
        [] \<Rightarrow> None
      | c # cs \<Rightarrow>
          if c = CHR ''-'' then map_option uminus (int_unsigned cs)
          else if c = CHR ''+'' then int_unsigned cs
          else int_unsigned (c # cs))"

subsection \<open>The collaborators: PyPDF2 and the file system\<close>

text \<open>
  The exceptions the modelled code can meet. \<open>OpenFailed p\<close>: the file at \<open>p\<close> cannot be
  opened for reading. \<open>ReadFailed m\<close>: PyPDF2 raised while reading a document (message
  \<open>m\<close>). \<open>OutputOpenFailed m\<close>: \<^verbatim>\<open>open(output, "wb")\<close> raised. \<open>WriteFailed m\<close>:
  \<^verbatim>\<open>writer.write(f)\<close> raised. \<open>ZeroDivisionError\<close>: a division by zero.
\<close>

datatype exn =
    OpenFailed path
  | ReadFailed string
  | OutputOpenFailed string
  | WriteFailed string
  | ZeroDivisionError

text \<open>
  PyPDF2, as far as the code uses it: \<open>read_pages\<close> is what \<^verbatim>\<open>PdfReader(path).pages\<close>
  yields for a file's content, or the message of the exception it raises;
  \<open>render\<close> is the content \<^verbatim>\<open>PdfWriter.write\<close> produces for the pages added. Both are
  functions: the library is taken to be deterministic.
\<close>

record ('p, 'c) pdf_lib =
  read_pages :: "'c \<Rightarrow> string + 'p list"
  render :: "'p list \<Rightarrow> 'c"

type_synonym 'c fs = "path \<Rightarrow> 'c option"

text \<open>\<^verbatim>\<open>PdfReader(pdf).pages\<close>, read to the end: the pages, or the exception. A path the
  file system has no content for cannot be opened.\<close>

definition PdfReader :: "('p, 'c) pdf_lib \<Rightarrow> 'c fs \<Rightarrow> path \<Rightarrow> exn + 'p list" where
  "PdfReader lib fsys pdf =
     (case fsys pdf of
        None \<Rightarrow> Inl (OpenFailed pdf)
      | Some c \<Rightarrow> (case read_pages lib c of
                    Inl m \<Rightarrow> Inl (ReadFailed m)
                  | Inr ps \<Rightarrow> Inr ps))"

subsection \<open>The application object\<close>

type_synonym ref = nat
type_synonym heap = "ref \<Rightarrow> int set"

text \<open>
  The fields of \<^verbatim>\<open>PdfMergerApp\<close> the modelled methods touch: the texts of the list
  widget's items, the reference to the set \<^verbatim>\<open>excluded_pages\<close>, and the text of the label
  \<^verbatim>\<open>page_count_label\<close>.
\<close>

record app =
  items :: "string list"
  excluded_pages :: ref
  page_count_label :: string

definition get_files :: "app \<Rightarrow> path list" where
  "get_files a = map (before_sep ''   ['') (items a)"

fun count_pages :: "('p, 'c) pdf_lib \<Rightarrow> 'c fs \<Rightarrow> path list \<Rightarrow> int \<Rightarrow> exn + int" where
  "count_pages lib fsys [] tot = Inr tot"
| "count_pages lib fsys (f # fs) tot =
     (case PdfReader lib fsys f of
        Inl e \<Rightarrow> Inl e
      | Inr ps \<Rightarrow> count_pages lib fsys fs (tot + int (length ps)))"

definition update_page_count :: "('p, 'c) pdf_lib \<Rightarrow> 'c fs \<Rightarrow> heap \<Rightarrow> app \<Rightarrow> exn + app" where
  "update_page_count lib fsys h a =
     (case count_pages lib fsys (get_files a) 0 of
        Inl e \<Rightarrow> Inl e
      | Inr tot \<Rightarrow>
          Inr (a\<lparr>page_count_label :=
                 ''Total pages: '' @
                 str_nat (nat (max (tot - int (card (h (excluded_pages a)))) 0))\<rparr>))"

subsection \<open>The page-removal parser: \<^verbatim>\<open>apply_page_removal\<close>\<close>

text \<open>
  What one comma-separated part adds to the set, or \<open>None\<close> when the body of the
  \<^verbatim>\<open>try\<close> raises on it: \<^verbatim>\<open>a, b = map(int, part.split("-"))\<close> raises unless the split
  has exactly two pieces and \<^verbatim>\<open>int\<close> accepts both; \<^verbatim>\<open>range(a, b + 1)\<close> is the
  interval from \<open>a\<close> to \<open>b\<close>.
\<close>

definition part_pages :: "string \<Rightarrow> int set option" where
  "part_pages part =
     (if CHR ''-'' \<in> set part then
        (case map py_int (split_on CHR ''-'' part) of
           [Some a, Some b] \<Rightarrow> Some {a..b}
         | _ \<Rightarrow> None)
      else
        (case py_int part of
           Some n \<Rightarrow> Some {n}
         | None \<Rightarrow> None))"

text \<open>The \<^verbatim>\<open>for\<close> loop over the parts, updating the set object in place. The flag tells
  whether the loop ran to its end (\<open>True\<close>) or raised (\<open>False\<close>); the store is returned
  as the loop left it.\<close>

fun removal_loop :: "heap \<Rightarrow> ref \<Rightarrow> string list \<Rightarrow> bool \<times> heap" where
  "removal_loop h r [] = (True, h)"
| "removal_loop h r (part # parts) =
     (case part_pages part of
        None \<Rightarrow> (False, h)
      | Some s \<Rightarrow> removal_loop (h(r := h r \<union> s)) r parts)"

text \<open>
  How a call of the slot ends: it returns, it shows the warning box
  \<^verbatim>\<open>"Invalid page range format"\<close> (the \<^verbatim>\<open>except\<close> branch), or an exception leaves it
  (only \<^verbatim>\<open>update_page_count\<close> of the empty-text branch, which is outside the \<^verbatim>\<open>try\<close>).
\<close>

datatype outcome = Returned | Warned | Raised exn

text \<open>The argument \<open>input\<close> is \<^verbatim>\<open>self.page_input.text()\<close>.\<close>

definition apply_page_removal ::
  "('p, 'c) pdf_lib \<Rightarrow> 'c fs \<Rightarrow> heap \<Rightarrow> app \<Rightarrow> string \<Rightarrow> outcome \<times> heap \<times> app" where
  "apply_page_removal lib fsys h a input =
     (let r = excluded_pages a;
          h0 = h(r := {});
          text = filter (\<lambda>c. c \<noteq> CHR '' '') input
      in if text = [] then
           (case update_page_count lib fsys h0 a of
              Inl e \<Rightarrow> (Raised e, h0, a)
            | Inr a' \<Rightarrow> (Returned, h0, a'))
         else
           (case removal_loop h0 r (split_on CHR '','' text) of
              (False, h1) \<Rightarrow> (Warned, h1, a)
            | (True, h1) \<Rightarrow>
                (case update_page_count lib fsys h1 a of
                   Inl e \<Rightarrow> (Warned, h1, a)
                 | Inr a' \<Rightarrow> (Returned, h1, a'))))"

subsection \<open>Python floats, as far as the progress percentage needs them\<close>

text \<open>
  \<^verbatim>\<open>int(((i + 1) / total_files) * 100)\<close> divides two integers into a float, multiplies the
  float by 100 and truncates. A float is an IEEE double; a positive double is written here
  as a pair \<open>(m, s)\<close> with the value \<open>m / 2 ^ s\<close> (\<open>m * 2 ^ (- s)\<close> for a negative \<open>s\<close>).
  Both operations round their exact result to the nearest double, ties to the even
  mantissa: the double with a 53-bit mantissa next to the exact value. Overflow and
  subnormal numbers are left out: the values that occur lie between \<open>1 / total_files\<close> and
  100.
\<close>

type_synonym double = "nat \<times> int"

text \<open>\<^verbatim>\<open>n.bit_length()\<close>.\<close>

function bit_length :: "nat \<Rightarrow> nat" where
  "bit_length n = (if n = 0 then 0 else bit_length (n div 2) + 1)"
  by pat_completeness auto
termination
  by (relation "measure id") auto

declare bit_length.simps [simp del]

text \<open>The integer nearest to \<open>a / b\<close>, the even one of two that are equally near.\<close>

definition round_half_even :: "nat \<Rightarrow> nat \<Rightarrow> nat" where
  "round_half_even a b =
     (let q = a div b; r = a mod b
      in if 2 * r < b then q
         else if b < 2 * r then q + 1
         else if even q then q else q + 1)"

text \<open>The scale \<open>s\<close> for which \<open>a / b * 2 ^ s\<close> lies from \<open>2 ^ 52\<close> up to, not including,
  \<open>2 ^ 53\<close>, for positive \<open>a\<close> and \<open>b\<close>.\<close>

definition ratio_scale :: "nat \<Rightarrow> nat \<Rightarrow> int" where
  "ratio_scale a b =
     (let d = int (bit_length a) - int (bit_length b);
          floor_log2 = (if b * 2 ^ nat d \<le> a * 2 ^ nat (- d) then d else d - 1)
      in 52 - floor_log2)"

text \<open>The double nearest to the exact ratio \<open>a / b\<close>.\<close>

definition nearest_double :: "nat \<Rightarrow> nat \<Rightarrow> double" where
  "nearest_double a b =
     (if a = 0 then (0, 0)
      else let s = ratio_scale a b
           in (round_half_even (a * 2 ^ nat s) (b * 2 ^ nat (- s)), s))"

text \<open>\<^verbatim>\<open>a / b\<close> for integers: CPython rounds the exact quotient once.\<close>

definition int_true_div :: "nat \<Rightarrow> nat \<Rightarrow> exn + double" where
  "int_true_div a b = (if b = 0 then Inl ZeroDivisionError else Inr (nearest_double a b))"

text \<open>\<^verbatim>\<open>x * n\<close> for a float \<open>x\<close> and an integer \<open>n\<close> that is a double itself: the exact
  product, rounded once.\<close>

definition double_mul_nat :: "double \<Rightarrow> nat \<Rightarrow> double" where
  "double_mul_nat x n =
     (case x of (m, s) \<Rightarrow> nearest_double (m * n * 2 ^ nat (- s)) (2 ^ nat s))"

text \<open>\<^verbatim>\<open>int(x)\<close> for a float that is not negative: truncation.\<close>

definition double_trunc :: "double \<Rightarrow> int" where
  "double_trunc x = (case x of (m, s) \<Rightarrow> int ((m * 2 ^ nat (- s)) div 2 ^ nat s))"

subsection \<open>The merge worker: \<^verbatim>\<open>MergeWorker.run\<close>\<close>

text \<open>The signals the worker emits: \<^verbatim>\<open>progress(int, str)\<close>, \<^verbatim>\<open>finished()\<close> and
  \<^verbatim>\<open>error(str)\<close>; the error event carries the exception whose text is sent.\<close>

datatype event = Progress int string | Finished | Error exn

text \<open>The fields \<^verbatim>\<open>__init__\<close> stores: the file list, the output path and the reference to
  the set of excluded pages it was handed.\<close>

record worker =
  w_files :: "path list"
  w_output :: path
  w_excluded_pages :: ref

text \<open>\<^verbatim>\<open>percent = int(((i + 1) / total_files) * 100)\<close>, with \<open>k\<close> for \<open>i + 1\<close>.\<close>

definition percent :: "nat \<Rightarrow> nat \<Rightarrow> exn + int" where
  "percent k total_files =
     (case int_true_div k total_files of
        Inl e \<Rightarrow> Inl e
      | Inr x \<Rightarrow> Inr (double_trunc (double_mul_nat x 100)))"

text \<open>\<^verbatim>\<open>f"Merging file {i + 1} of {total_files}"\<close>.\<close>

definition status :: "nat \<Rightarrow> nat \<Rightarrow> string" where
  "status k total_files = ''Merging file '' @ str_nat k @ '' of '' @ str_nat total_files"

text \<open>The inner loop over the pages of one reader. The state is the list of pages added to
  the writer and \<^verbatim>\<open>current_page\<close>; the set is read through the reference at every
  test.\<close>

fun add_pages :: "heap \<Rightarrow> ref \<Rightarrow> 'p list \<Rightarrow> 'p list \<times> int \<Rightarrow> 'p list \<times> int" where
  "add_pages h r [] (writer, current_page) = (writer, current_page)"
| "add_pages h r (page # pages) (writer, current_page) =
     add_pages h r pages
       (if current_page \<notin> h r then writer @ [page] else writer, current_page + 1)"

text \<open>The outer loop over \<^verbatim>\<open>enumerate(self.files)\<close>, from index \<open>i\<close> on: the progress
  events it emits, and either the exception that ended it or the state it reached.\<close>

fun merge_files ::
  "('p, 'c) pdf_lib \<Rightarrow> 'c fs \<Rightarrow> heap \<Rightarrow> ref \<Rightarrow> nat \<Rightarrow> path list \<Rightarrow> nat \<Rightarrow> 'p list \<times> int \<Rightarrow>
     event list \<times> (exn + 'p list \<times> int)" where
  "merge_files lib fsys h r total_files [] i st = ([], Inr st)"
| "merge_files lib fsys h r total_files (pdf # rest) i st =
     (case PdfReader lib fsys pdf of
        Inl e \<Rightarrow> ([], Inl e)
      | Inr pages \<Rightarrow>
          (case percent (i + 1) total_files of
             Inl e \<Rightarrow> ([], Inl e)
           | Inr pc \<Rightarrow>
               (case merge_files lib fsys h r total_files rest (i + 1) (add_pages h r pages st) of
                  (evs, res) \<Rightarrow> (Progress pc (status (i + 1) total_files) # evs, res))))"

text \<open>
  What \<^verbatim>\<open>with open(self.output, "wb") as f: writer.write(f)\<close> can do with a content at a
  path: write it, raise on opening (nothing changes), or raise while writing and leave
  some content behind. Which of the three happens is the file system's answer \<open>wr\<close>.
\<close>

datatype 'c write_result = WriteOk | OpenRaises string | WriteRaises string 'c

text \<open>The whole of \<^verbatim>\<open>run\<close>: the events emitted, in order, and the file system it
  leaves.\<close>

definition run ::
  "('p, 'c) pdf_lib \<Rightarrow> (path \<Rightarrow> 'c \<Rightarrow> 'c write_result) \<Rightarrow> 'c fs \<Rightarrow> heap \<Rightarrow> worker \<Rightarrow>
     event list \<times> 'c fs" where
  "run lib wr fsys h w =
     (case merge_files lib fsys h (w_excluded_pages w) (length (w_files w)) (w_files w) 0 ([], 1) of
        (evs, Inl e) \<Rightarrow> (evs @ [Error e], fsys)
      | (evs, Inr (writer, current_page)) \<Rightarrow>
          (case wr (w_output w) (render lib writer) of
             OpenRaises m \<Rightarrow> (evs @ [Error (OutputOpenFailed m)], fsys)
           | WriteRaises m partial \<Rightarrow>
               (evs @ [Error (WriteFailed m)], fsys(w_output w \<mapsto> partial))
           | WriteOk \<Rightarrow> (evs @ [Finished], fsys(w_output w \<mapsto> render lib writer))))"

subsection \<open>Launching the worker: \<^verbatim>\<open>merge_pdfs\<close> and \<^verbatim>\<open>MergeWorker.__init__\<close>\<close>

text \<open>
  \<^verbatim>\<open>merge_pdfs\<close> asks for the output path (the argument \<open>output\<close> is the dialog's answer,
  empty when the dialog is cancelled) and builds the worker from \<^verbatim>\<open>self.get_files()\<close>, a
  list made for this call, the path, and \<^verbatim>\<open>self.excluded_pages\<close>: the set object itself,
  that is, its reference. \<^verbatim>\<open>__init__\<close> stores the three as they come.
\<close>

definition merge_pdfs :: "app \<Rightarrow> path \<Rightarrow> worker option" where
  "merge_pdfs a output =
     (if output = [] then None
      else Some \<lparr>w_files = get_files a, w_output = output, w_excluded_pages = excluded_pages a\<rparr>)"

subsection \<open>The worker thread beside the interface\<close>

text \<open>
  The worker runs in a thread of its own while the interface goes on handling events, so
  a slot of the interface can run between two steps of \<^verbatim>\<open>run\<close>. The state of the thread
  inside \<^verbatim>\<open>run\<close>: the pages added to the writer, \<^verbatim>\<open>current_page\<close>, the number of files
  finished, the files not yet opened, the pages of the open reader not yet visited
  (\<open>None\<close> between two files), the events emitted so far, and whether \<^verbatim>\<open>run\<close> is still
  going.
\<close>

record 'p thread =
  t_writer :: "'p list"
  t_current_page :: int
  t_index :: nat
  t_todo :: "path list"
  t_pages :: "'p list option"
  t_emitted :: "event list"
  t_running :: bool

definition start :: "worker \<Rightarrow> 'p thread" where
  "start w =
     \<lparr>t_writer = [], t_current_page = 1, t_index = 0, t_todo = w_files w, t_pages = None,
      t_emitted = [], t_running = True\<rparr>"

text \<open>
  One step of \<^verbatim>\<open>run\<close>: visiting one page (the only place where the set is read, through
  the reference, in the store as it is at that moment), ending a file with its progress
  event, opening the next file, or, after the last file, writing the output. The steps are
  those of \<open>merge_files\<close>, \<open>add_pages\<close> and \<open>run\<close>, one at a time.
\<close>

definition worker_step ::
  "('p, 'c) pdf_lib \<Rightarrow> (path \<Rightarrow> 'c \<Rightarrow> 'c write_result) \<Rightarrow> 'c fs \<Rightarrow> heap \<Rightarrow> worker \<Rightarrow> 'p thread \<Rightarrow>
     'p thread \<times> 'c fs" where
  "worker_step lib wr fsys h w t =
     (if \<not> t_running t then (t, fsys)
      else case t_pages t of
        Some (page # pages) \<Rightarrow>
          (t\<lparr>t_writer := (if t_current_page t \<notin> h (w_excluded_pages w)
                           then t_writer t @ [page] else t_writer t),
              t_current_page := t_current_page t + 1,
              t_pages := Some pages\<rparr>, fsys)
      | Some [] \<Rightarrow>
          (case percent (t_index t + 1) (length (w_files w)) of
             Inl e \<Rightarrow> (t\<lparr>t_emitted := t_emitted t @ [Error e], t_running := False\<rparr>, fsys)
           | Inr pc \<Rightarrow>
               (t\<lparr>t_emitted := t_emitted t @
                      [Progress pc (status (t_index t + 1) (length (w_files w)))],
                   t_index := t_index t + 1,
                   t_pages := None\<rparr>, fsys))
      | None \<Rightarrow>
          (case t_todo t of
             pdf # rest \<Rightarrow>
               (case PdfReader lib fsys pdf of
                  Inl e \<Rightarrow> (t\<lparr>t_emitted := t_emitted t @ [Error e], t_running := False\<rparr>, fsys)
                | Inr pages \<Rightarrow> (t\<lparr>t_todo := rest, t_pages := Some pages\<rparr>, fsys))
           | [] \<Rightarrow>
               (case wr (w_output w) (render lib (t_writer t)) of
                  OpenRaises m \<Rightarrow>
                    (t\<lparr>t_emitted := t_emitted t @ [Error (OutputOpenFailed m)],
                        t_running := False\<rparr>, fsys)
                | WriteRaises m partial \<Rightarrow>
                    (t\<lparr>t_emitted := t_emitted t @ [Error (WriteFailed m)],
                        t_running := False\<rparr>, fsys(w_output w \<mapsto> partial))
                | WriteOk \<Rightarrow>
                    (t\<lparr>t_emitted := t_emitted t @ [Finished], t_running := False\<rparr>,
                     fsys(w_output w \<mapsto> render lib (t_writer t))))))"

text \<open>
  What can happen next: a step of the worker, the slot \<^verbatim>\<open>apply_page_removal\<close> with the
  text of the input line, or a change of the list widget (adding, removing or reordering
  items, with the label text the change leaves). \<open>exec\<close> runs a sequence of them on the
  application object, the store, the file system and the thread.
\<close>

datatype action = WorkerStep | ApplyPageRemoval string | ListChanged "string list" string

fun exec ::
  "('p, 'c) pdf_lib \<Rightarrow> (path \<Rightarrow> 'c \<Rightarrow> 'c write_result) \<Rightarrow> worker \<Rightarrow> action list \<Rightarrow>
     app \<times> heap \<times> 'c fs \<times> 'p thread \<Rightarrow> app \<times> heap \<times> 'c fs \<times> 'p thread" where
  "exec lib wr w [] s = s"
| "exec lib wr w (WorkerStep # acts) (a, h, fsys, t) =
     (case worker_step lib wr fsys h w t of
        (t', fsys') \<Rightarrow> exec lib wr w acts (a, h, fsys', t'))"
| "exec lib wr w (ApplyPageRemoval input # acts) (a, h, fsys, t) =
     (case apply_page_removal lib fsys h a input of
        (out, h', a') \<Rightarrow> exec lib wr w acts (a', h', fsys, t))"
| "exec lib wr w (ListChanged its label # acts) (a, h, fsys, t) =
     exec lib wr w acts (a\<lparr>items := its, page_count_label := label\<rparr>, h, fsys, t)"

text \<open>
  For the proofs: the events and the file system an undisturbed \<^verbatim>\<open>run\<close> ends with when
  it goes on from a thread state, and a bound on the steps it still takes.
\<close>

definition finish ::
  "('p, 'c) pdf_lib \<Rightarrow> (path \<Rightarrow> 'c \<Rightarrow> 'c write_result) \<Rightarrow> 'c fs \<Rightarrow> heap \<Rightarrow> worker \<Rightarrow> 'p thread \<Rightarrow>
     event list \<times> 'c fs" where
  "finish lib wr fsys h w t =
     (if \<not> t_running t then (t_emitted t, fsys)
      else
        (case (case t_pages t of
                 None \<Rightarrow>
                   merge_files lib fsys h (w_excluded_pages w) (length (w_files w)) (t_todo t)
                     (t_index t) (t_writer t, t_current_page t)
               | Some pages \<Rightarrow>
                   (case percent (t_index t + 1) (length (w_files w)) of
                      Inl e \<Rightarrow> ([], Inl e)
                    | Inr pc \<Rightarrow>
                        (case merge_files lib fsys h (w_excluded_pages w) (length (w_files w))
                                (t_todo t) (t_index t + 1)
                                (add_pages h (w_excluded_pages w) pages
                                   (t_writer t, t_current_page t)) of
                           (evs, res) \<Rightarrow>
                             (Progress pc (status (t_index t + 1) (length (w_files w))) # evs, res)))) of
           (evs, Inl e) \<Rightarrow> (t_emitted t @ evs @ [Error e], fsys)
         | (evs, Inr (writer, current_page)) \<Rightarrow>
             (case wr (w_output w) (render lib writer) of
                OpenRaises m \<Rightarrow> (t_emitted t @ evs @ [Error (OutputOpenFailed m)], fsys)
              | WriteRaises m partial \<Rightarrow>
                  (t_emitted t @ evs @ [Error (WriteFailed m)], fsys(w_output w \<mapsto> partial))
              | WriteOk \<Rightarrow>
                  (t_emitted t @ evs @ [Finished], fsys(w_output w \<mapsto> render lib writer)))))"

fun todo_cost :: "('p, 'c) pdf_lib \<Rightarrow> 'c fs \<Rightarrow> path list \<Rightarrow> nat" where
  "todo_cost lib fsys [] = 0"
| "todo_cost lib fsys (f # fs) =
     (case PdfReader lib fsys f of Inl e \<Rightarrow> 1 | Inr pages \<Rightarrow> length pages + 2)
       + todo_cost lib fsys fs"

definition steps_left :: "('p, 'c) pdf_lib \<Rightarrow> 'c fs \<Rightarrow> 'p thread \<Rightarrow> nat" where
  "steps_left lib fsys t =
     (if \<not> t_running t then 0
      else 1 + (case t_pages t of None \<Rightarrow> 0 | Some pages \<Rightarrow> length pages + 1)
             + todo_cost lib fsys (t_todo t))"

subsection \<open>Notation for the statements\<close>

text \<open>The percentage \<^verbatim>\<open>run\<close> computes after file \<open>k\<close> of \<open>n\<close> (for \<open>n\<close> not 0), the
  progress event it emits then, and the pages a loop keeps when its page counter starts at
  \<open>c\<close>: those whose position is not in the set.\<close>

abbreviation percent_value :: "nat \<Rightarrow> nat \<Rightarrow> int" where
  "percent_value k n \<equiv> double_trunc (double_mul_nat (nearest_double k n) 100)"

abbreviation progress_event :: "nat \<Rightarrow> nat \<Rightarrow> event" where
  "progress_event n k \<equiv> Progress (percent_value k n) (status k n)"

abbreviation kept_pages :: "int set \<Rightarrow> nat \<Rightarrow> 'p list \<Rightarrow> 'p list" where
  "kept_pages ex c pages \<equiv> map snd (filter (\<lambda>(i, p). int i \<notin> ex) (enumerate c pages))"

subsection \<open>Example inputs\<close>

text \<open>A library whose file content is either the message of the exception reading raises or
  the pages themselves, and an application object with an empty list widget.\<close>

abbreviation example_lib :: "(nat, string + nat list) pdf_lib" where
  "example_lib \<equiv> \<lparr>read_pages = (\<lambda>c. c), render = Inr\<rparr>"

abbreviation example_app :: app where
  "example_app \<equiv> \<lparr>items = [], excluded_pages = 0, page_count_label = ''Total pages: 0''\<rparr>"

abbreviation example_worker :: worker where
  "example_worker \<equiv> \<lparr>w_files = [''a'', ''b'', ''c''], w_output = ''out'', w_excluded_pages = 0\<rparr>"

abbreviation example_fs :: "(string + nat list) fs" where
  "example_fs \<equiv> [''a'' \<mapsto> Inr [10, 11], ''b'' \<mapsto> Inr [20, 21, 22], ''c'' \<mapsto> Inr [30]]"

abbreviation four_files_worker :: worker where
  "four_files_worker \<equiv>
     \<lparr>w_files = [''a'', ''b'', ''c'', ''a''], w_output = ''out'', w_excluded_pages = 0\<rparr>"

abbreviation two_docs_fs :: "(string + nat list) fs" where
  "two_docs_fs \<equiv> [''a'' \<mapsto> Inr [10, 11], ''b'' \<mapsto> Inr [20, 21, 22]]"

abbreviation two_docs_app :: app where
  "two_docs_app \<equiv> \<lparr>items = [''a   [2 pages]'', ''b   [3 pages]''], excluded_pages = 0,
     page_count_label = ''Total pages: 4''\<rparr>"

abbreviation two_docs_worker :: worker where
  "two_docs_worker \<equiv> \<lparr>w_files = [''a'', ''b''], w_output = ''out'', w_excluded_pages = 0\<rparr>"

section \<open>Properties\<close>

subsection \<open>Splitting a string\<close>

lemma split_on_Cons_ex: "\<exists>t ts. split_on sep s = t # ts"
  by (induction s) (auto split: list.splits)

lemma split_on_no_sep: "sep \<notin> set s \<Longrightarrow> split_on sep s = [s]"
  by (induction s) (simp_all, blast)

lemma split_on_single:
  "split_on sep s = [x] \<Longrightarrow> x = s \<and> sep \<notin> set s"
proof (induction s arbitrary: x)
  case Nil
  then show ?case by simp
next
  case (Cons c cs)
  obtain t ts where sp: "split_on sep cs = t # ts"
    using split_on_Cons_ex by blast
  show ?case
  proof (cases "c = sep")
    case True
    with Cons.prems sp show ?thesis by simp
  next
    case False
    with Cons.prems sp have "ts = []" "x = c # t" by simp_all
    with sp Cons.IH[of t] False show ?thesis by simp
  qed
qed

lemma split_on_append_sep:
  "sep \<notin> set x \<Longrightarrow> split_on sep (x @ sep # y) = x # split_on sep y"
  by (induction x) (simp_all, blast)

lemma split_on_two_D:
  "split_on sep s = [x, y] \<Longrightarrow> s = x @ sep # y \<and> sep \<notin> set x \<and> sep \<notin> set y"
proof (induction s arbitrary: x)
  case Nil
  then show ?case by simp
next
  case (Cons c cs)
  obtain t ts where sp: "split_on sep cs = t # ts"
    using split_on_Cons_ex by blast
  show ?case
  proof (cases "c = sep")
    case True
    with Cons.prems sp have "x = []" "split_on sep cs = [y]" by simp_all
    with split_on_single[of sep cs y] True show ?thesis by simp
  next
    case False
    with Cons.prems sp have "x = c # t" "split_on sep cs = [t, y]" by simp_all
    with Cons.IH[of t] False show ?thesis by simp
  qed
qed

lemma split_on_two:
  "split_on sep s = [x, y] \<longleftrightarrow> s = x @ sep # y \<and> sep \<notin> set x \<and> sep \<notin> set y"
  using split_on_two_D[of sep s x y] split_on_append_sep[of sep x y] split_on_no_sep[of sep y]
  by fastforce

subsection \<open>The parts of a page-removal expression\<close>

lemma part_pages_range:
  assumes "CHR ''-'' \<in> set tok"
  shows "part_pages tok = Some s \<longleftrightarrow>
     (\<exists>x y lo hi. tok = x @ CHR ''-'' # y \<and> CHR ''-'' \<notin> set x \<and> CHR ''-'' \<notin> set y \<and>
        py_int x = Some lo \<and> py_int y = Some hi \<and> s = {lo..hi})"
proof
  assume "part_pages tok = Some s"
  then obtain x y lo hi where sp: "split_on CHR ''-'' tok = [x, y]"
    and "py_int x = Some lo" "py_int y = Some hi" "s = {lo..hi}"
    using assms
    by (auto simp: part_pages_def map_eq_Cons_conv split: list.splits option.splits)
  moreover from sp have "tok = x @ CHR ''-'' # y \<and> CHR ''-'' \<notin> set x \<and> CHR ''-'' \<notin> set y"
    by (simp add: split_on_two)
  ultimately show "\<exists>x y lo hi. tok = x @ CHR ''-'' # y \<and> CHR ''-'' \<notin> set x \<and> CHR ''-'' \<notin> set y \<and>
        py_int x = Some lo \<and> py_int y = Some hi \<and> s = {lo..hi}"
    by blast
next
  assume "\<exists>x y lo hi. tok = x @ CHR ''-'' # y \<and> CHR ''-'' \<notin> set x \<and> CHR ''-'' \<notin> set y \<and>
        py_int x = Some lo \<and> py_int y = Some hi \<and> s = {lo..hi}"
  then obtain x y lo hi where "tok = x @ CHR ''-'' # y" "CHR ''-'' \<notin> set x" "CHR ''-'' \<notin> set y"
    "py_int x = Some lo" "py_int y = Some hi" "s = {lo..hi}"
    by blast
  moreover from this have "split_on CHR ''-'' tok = [x, y]"
    by (simp add: split_on_two)
  ultimately show "part_pages tok = Some s"
    using assms by (simp add: part_pages_def)
qed

lemma part_pages_bare:
  "CHR ''-'' \<notin> set tok \<Longrightarrow> part_pages tok = Some s \<longleftrightarrow> (\<exists>n. py_int tok = Some n \<and> s = {n})"
  by (auto simp: part_pages_def split: option.splits)

lemma removal_loop_other:
  "r' \<noteq> r \<Longrightarrow> snd (removal_loop h r parts) r' = h r'"
  by (induction parts arbitrary: h) (auto split: option.splits)

lemma upd_upd_Un:
  "(h(r := h r \<union> s))(r := (h(r := h r \<union> s)) r \<union> U) = h(r := h r \<union> (s \<union> U))"
  by (rule ext) auto

lemma removal_loop_True:
  "removal_loop h r parts = (True, h') \<Longrightarrow>
   h' = h(r := h r \<union> (\<Union>t\<in>set parts. \<Union>(set_option (part_pages t))))"
proof (induction parts arbitrary: h)
  case Nil
  then show ?case by auto
next
  case (Cons part parts)
  then obtain s where s: "part_pages part = Some s"
    by (auto split: option.splits)
  with Cons.prems have "removal_loop (h(r := h r \<union> s)) r parts = (True, h')"
    by simp
  from Cons.IH[OF this, unfolded upd_upd_Un]
  have "h' = h(r := h r \<union> (s \<union> (\<Union>t\<in>set parts. \<Union>(set_option (part_pages t)))))" .
  moreover have "(\<Union>t\<in>set (part # parts). \<Union>(set_option (part_pages t)))
      = s \<union> (\<Union>t\<in>set parts. \<Union>(set_option (part_pages t)))"
    using s by simp
  ultimately show ?case by metis
qed

lemma removal_loop_all_good:
  "\<forall>t\<in>set parts. part_pages t \<noteq> None \<Longrightarrow>
   removal_loop h r parts =
     (True, h(r := h r \<union> (\<Union>t\<in>set parts. \<Union>(set_option (part_pages t)))))"
proof (induction parts arbitrary: h)
  case Nil
  then show ?case by auto
next
  case (Cons part parts)
  then obtain s where s: "part_pages part = Some s"
    by auto
  from Cons.prems have "\<forall>t\<in>set parts. part_pages t \<noteq> None" by simp
  from Cons.IH[OF this, of "h(r := h r \<union> s)", unfolded upd_upd_Un]
  have "removal_loop (h(r := h r \<union> s)) r parts
      = (True, h(r := h r \<union> (s \<union> (\<Union>t\<in>set parts. \<Union>(set_option (part_pages t))))))" .
  moreover have "(\<Union>t\<in>set (part # parts). \<Union>(set_option (part_pages t)))
      = s \<union> (\<Union>t\<in>set parts. \<Union>(set_option (part_pages t)))"
    using s by simp
  moreover have "removal_loop h r (part # parts) = removal_loop (h(r := h r \<union> s)) r parts"
    using s by simp
  ultimately show ?case by metis
qed

lemma removal_loop_first_bad:
  "\<forall>t\<in>set good. part_pages t \<noteq> None \<Longrightarrow> part_pages bad = None \<Longrightarrow>
   removal_loop h r (good @ bad # rest) =
     (False, h(r := h r \<union> (\<Union>t\<in>set good. \<Union>(set_option (part_pages t)))))"
proof (induction good arbitrary: h)
  case Nil
  then show ?case by auto
next
  case (Cons part good)
  then obtain s where s: "part_pages part = Some s"
    by auto
  from Cons.prems have "\<forall>t\<in>set good. part_pages t \<noteq> None" by simp
  from Cons.IH[OF this Cons.prems(2), of "h(r := h r \<union> s)", unfolded upd_upd_Un]
  have "removal_loop (h(r := h r \<union> s)) r (good @ bad # rest)
      = (False, h(r := h r \<union> (s \<union> (\<Union>t\<in>set good. \<Union>(set_option (part_pages t))))))" .
  moreover have "(\<Union>t\<in>set (part # good). \<Union>(set_option (part_pages t)))
      = s \<union> (\<Union>t\<in>set good. \<Union>(set_option (part_pages t)))"
    using s by simp
  moreover have "removal_loop h r ((part # good) @ bad # rest)
      = removal_loop (h(r := h r \<union> s)) r (good @ bad # rest)"
    using s by simp
  ultimately show ?case by metis
qed

lemma removal_loop_False:
  "removal_loop h r parts = (False, h') \<Longrightarrow>
   \<exists>good bad rest. parts = good @ bad # rest \<and> (\<forall>t\<in>set good. part_pages t \<noteq> None) \<and>
      part_pages bad = None"
proof (induction parts arbitrary: h)
  case Nil
  then show ?case by simp
next
  case (Cons part parts)
  show ?case
  proof (cases "part_pages part")
    case None
    then have "part # parts = [] @ part # parts \<and> (\<forall>t\<in>set []. part_pages t \<noteq> None) \<and>
      part_pages part = None" by simp
    then show ?thesis by blast
  next
    case (Some s)
    with Cons.prems have "removal_loop (h(r := h r \<union> s)) r parts = (False, h')" by simp
    from Cons.IH[OF this] obtain good bad rest where
      "parts = good @ bad # rest" "\<forall>t\<in>set good. part_pages t \<noteq> None" "part_pages bad = None"
      by blast
    with Some have "part # parts = (part # good) @ bad # rest \<and>
       (\<forall>t\<in>set (part # good). part_pages t \<noteq> None) \<and> part_pages bad = None"
      by simp
    then show ?thesis by blast
  qed
qed

subsection \<open>Evaluation of the string functions\<close>

lemma digit_char_values:
  "digit_char 0 = CHR ''0''" "digit_char 1 = CHR ''1''" "digit_char 2 = CHR ''2''"
  "digit_char 3 = CHR ''3''" "digit_char 4 = CHR ''4''" "digit_char 5 = CHR ''5''"
  "digit_char 6 = CHR ''6''" "digit_char 7 = CHR ''7''" "digit_char 8 = CHR ''8''"
  "digit_char 9 = CHR ''9''" "digit_char (Suc 0) = CHR ''1''"
  by code_simp+

lemmas int_defs = py_int_def strip_space_def int_unsigned_def int_isspace_def is_digit_def
  digit_val_def int_max_str_digits_def

lemma part_pages_mem:
  "p \<in> \<Union>(set_option (part_pages tok)) \<longleftrightarrow>
     (\<exists>x y lo hi. tok = x @ CHR ''-'' # y \<and> CHR ''-'' \<notin> set x \<and> CHR ''-'' \<notin> set y \<and>
        py_int x = Some lo \<and> py_int y = Some hi \<and> lo \<le> p \<and> p \<le> hi) \<or>
     (CHR ''-'' \<notin> set tok \<and> py_int tok = Some p)"
proof (cases "CHR ''-'' \<in> set tok")
  case True
  have "p \<in> \<Union>(set_option (part_pages tok)) \<longleftrightarrow> (\<exists>s. part_pages tok = Some s \<and> p \<in> s)"
    by (cases "part_pages tok") auto
  also have "\<dots> \<longleftrightarrow> (\<exists>x y lo hi. tok = x @ CHR ''-'' # y \<and> CHR ''-'' \<notin> set x \<and> CHR ''-'' \<notin> set y \<and>
        py_int x = Some lo \<and> py_int y = Some hi \<and> lo \<le> p \<and> p \<le> hi)"
    unfolding part_pages_range[OF True] by fastforce
  finally show ?thesis using True by blast
next
  case False
  have "p \<in> \<Union>(set_option (part_pages tok)) \<longleftrightarrow> (\<exists>s. part_pages tok = Some s \<and> p \<in> s)"
    by (cases "part_pages tok") auto
  also have "\<dots> \<longleftrightarrow> py_int tok = Some p"
    unfolding part_pages_bare[OF False] by auto
  finally show ?thesis using False by auto
qed

lemma part_pages_None:
  "part_pages tok = None \<longleftrightarrow>
     (CHR ''-'' \<notin> set tok \<and> py_int tok = None) \<or>
     (CHR ''-'' \<in> set tok \<and>
      (\<nexists>x y. tok = x @ CHR ''-'' # y \<and> CHR ''-'' \<notin> set x \<and> CHR ''-'' \<notin> set y \<and>
         py_int x \<noteq> None \<and> py_int y \<noteq> None))"
proof (cases "CHR ''-'' \<in> set tok")
  case True
  have "(\<exists>s. part_pages tok = Some s) \<longleftrightarrow>
        (\<exists>x y. tok = x @ CHR ''-'' # y \<and> CHR ''-'' \<notin> set x \<and> CHR ''-'' \<notin> set y \<and>
         py_int x \<noteq> None \<and> py_int y \<noteq> None)" (is "?L \<longleftrightarrow> ?R")
  proof
    assume ?L
    then obtain s where "part_pages tok = Some s" ..
    then obtain x y lo hi where "tok = x @ CHR ''-'' # y" "CHR ''-'' \<notin> set x"
      "CHR ''-'' \<notin> set y" "py_int x = Some lo" "py_int y = Some hi"
      using part_pages_range[OF True, of s] by blast
    then have "tok = x @ CHR ''-'' # y \<and> CHR ''-'' \<notin> set x \<and> CHR ''-'' \<notin> set y \<and>
         py_int x \<noteq> None \<and> py_int y \<noteq> None" by simp
    then show ?R by blast
  next
    assume ?R
    then obtain x y lo hi where "tok = x @ CHR ''-'' # y" "CHR ''-'' \<notin> set x"
      "CHR ''-'' \<notin> set y" "py_int x = Some lo" "py_int y = Some hi"
      by auto
    then have "part_pages tok = Some {lo..hi}"
      using part_pages_range[OF True, of "{lo..hi}"] by blast
    then show ?L ..
  qed
  moreover have "part_pages tok = None \<longleftrightarrow> \<not> (\<exists>s. part_pages tok = Some s)" by simp
  ultimately show ?thesis using True by simp
next
  case False
  then show ?thesis by (simp add: part_pages_def split: option.splits)
qed

lemma apply_page_removal_empty:
  assumes "filter (\<lambda>c. c \<noteq> CHR '' '') input = []"
  shows "apply_page_removal lib fsys h a input =
     (case update_page_count lib fsys (h(excluded_pages a := {})) a of
        Inl e \<Rightarrow> (Raised e, h(excluded_pages a := {}), a)
      | Inr a' \<Rightarrow> (Returned, h(excluded_pages a := {}), a'))"
  using assms by (simp add: apply_page_removal_def Let_def)

lemma apply_page_removal_nonempty:
  assumes "filter (\<lambda>c. c \<noteq> CHR '' '') input \<noteq> []"
  shows "apply_page_removal lib fsys h a input =
     (case removal_loop (h(excluded_pages a := {})) (excluded_pages a)
             (split_on CHR '','' (filter (\<lambda>c. c \<noteq> CHR '' '') input)) of
        (False, h1) \<Rightarrow> (Warned, h1, a)
      | (True, h1) \<Rightarrow>
          (case update_page_count lib fsys h1 a of
             Inl e \<Rightarrow> (Warned, h1, a)
           | Inr a' \<Rightarrow> (Returned, h1, a')))"
  using assms by (simp add: apply_page_removal_def Let_def)

lemma update_page_count_readable:
  "count_pages lib fsys (get_files a) 0 = Inr n \<Longrightarrow> \<exists>a'. update_page_count lib fsys h a = Inr a'"
  by (simp add: update_page_count_def)

lemma upd_empty_Un: "(h(r := {}))(r := (h(r := {})) r \<union> U) = h(r := U)"
  by (rule ext) auto

lemma part_pages_examples:
  "part_pages ''2'' = Some {2}" "part_pages ''5'' = Some {5}" "part_pages ''8-10'' = Some {8..10}"
  "part_pages ''3-3'' = Some {3..3}" "part_pages ''5-2'' = Some {5..2}"
  "part_pages ''a'' = None" "part_pages ''2-'' = None"
  by (simp_all add: part_pages_def int_defs)

lemma apply_page_removal_all_good:
  assumes ne: "filter (\<lambda>c. c \<noteq> CHR '' '') input \<noteq> []"
    and good: "\<forall>t\<in>set (split_on CHR '','' (filter (\<lambda>c. c \<noteq> CHR '' '') input)). part_pages t \<noteq> None"
  shows "fst (snd (apply_page_removal lib fsys h a input)) =
           h(excluded_pages a := (\<Union>t\<in>set (split_on CHR '','' (filter (\<lambda>c. c \<noteq> CHR '' '') input)).
                \<Union>(set_option (part_pages t))))"
    and "count_pages lib fsys (get_files a) 0 = Inr n \<Longrightarrow>
         fst (apply_page_removal lib fsys h a input) = Returned"
proof -
  let ?r = "excluded_pages a"
  let ?toks = "split_on CHR '','' (filter (\<lambda>c. c \<noteq> CHR '' '') input)"
  let ?h1 = "h(?r := (\<Union>t\<in>set ?toks. \<Union>(set_option (part_pages t))))"
  have loop: "removal_loop (h(?r := {})) ?r ?toks = (True, ?h1)"
    using removal_loop_all_good[OF good, of "h(?r := {})" ?r] unfolding upd_empty_Un .
  show "fst (snd (apply_page_removal lib fsys h a input)) = ?h1"
    unfolding apply_page_removal_nonempty[OF ne] loop by (simp split: sum.splits)
  assume "count_pages lib fsys (get_files a) 0 = Inr n"
  then obtain a' where "update_page_count lib fsys ?h1 a = Inr a'"
    using update_page_count_readable by blast
  then show "fst (apply_page_removal lib fsys h a input) = Returned"
    unfolding apply_page_removal_nonempty[OF ne] loop by simp
qed

subsection \<open>The loops of the merge\<close>

lemma add_pages_enumerate:
  "add_pages h r pages (writer, int c) =
     (writer @ kept_pages (h r) c pages, int (c + length pages))"
proof (induction pages arbitrary: writer c)
  case Nil
  then show ?case by simp
next
  case (Cons page pages)
  have step: "int c + 1 = int (Suc c)" by simp
  show ?case
    using Cons.IH[of _ "Suc c"] by (simp add: step del: of_nat_Suc)
qed

lemma percent_nonzero:
  "n \<noteq> 0 \<Longrightarrow> percent k n = Inr (percent_value k n)"
  by (simp add: percent_def int_true_div_def)

lemma kept_pages_append:
  "kept_pages ex c (xs @ ys) = kept_pages ex c xs @ kept_pages ex (c + length xs) ys"
  by (simp add: enumerate_append_eq)

lemma merge_files_readable_prefix:
  assumes "map (PdfReader lib fsys) pre = map Inr docs" and "n \<noteq> 0 \<or> pre = []"
  shows "merge_files lib fsys h r n (pre @ rest) i (writer, int c) =
    (case merge_files lib fsys h r n rest (i + length pre)
            (writer @ kept_pages (h r) c (concat docs), int (c + length (concat docs))) of
       (evs, res) \<Rightarrow> (map (progress_event n) [Suc i..<Suc (i + length pre)] @ evs, res))"
  using assms
proof (induction pre arbitrary: docs i writer c)
  case Nil
  then show ?case by simp
next
  case (Cons f pre)
  then obtain d ds where docs: "docs = d # ds" and f: "PdfReader lib fsys f = Inr d"
    and pre: "map (PdfReader lib fsys) pre = map Inr ds"
    by (cases docs) auto
  from Cons.prems have n: "n \<noteq> 0" by simp
  have upt: "[Suc i..<Suc (i + length (f # pre))] = Suc i # [Suc (Suc i)..<Suc (Suc i + length pre)]"
    using upt_conv_Cons[of "Suc i" "Suc (i + length (f # pre))"] by simp
  note IH = Cons.IH[OF pre, of "Suc i" "writer @ kept_pages (h r) c d" "c + length d"]
  show ?case
    unfolding upt docs
    using IH n f
    by (simp add: percent_nonzero add_pages_enumerate kept_pages_append add.assoc
        split: prod.splits)
qed

lemma merge_files_all_readable:
  assumes "map (PdfReader lib fsys) fs = map Inr docs" and "n \<noteq> 0 \<or> fs = []"
  shows "merge_files lib fsys h r n fs i (writer, int c) =
    (map (progress_event n) [Suc i..<Suc (i + length fs)],
     Inr (writer @ kept_pages (h r) c (concat docs), int (c + length (concat docs))))"
  using merge_files_readable_prefix[OF assms, of h r "[]" i writer c] by (simp del: upt_Suc)

lemma merge_files_first_unreadable:
  assumes "map (PdfReader lib fsys) pre = map Inr docs" and "PdfReader lib fsys bad = Inl e"
  shows "merge_files lib fsys h r n (pre @ bad # rest) i (writer, int c) =
    (if n = 0 \<and> pre \<noteq> [] then ([], Inl ZeroDivisionError)
     else (map (progress_event n) [Suc i..<Suc (i + length pre)], Inl e))"
proof (cases "n = 0 \<and> pre \<noteq> []")
  case True
  then obtain f pre' where "pre = f # pre'" by (cases pre) auto
  with assms True show ?thesis
    by (cases docs) (auto simp: percent_def int_true_div_def)
next
  case False
  then have nz: "n \<noteq> 0 \<or> pre = []" by auto
  have tail: "merge_files lib fsys h r n (bad # rest) j st = ([], Inl e)" for j st
    using assms(2) by simp
  have "merge_files lib fsys h r n (pre @ bad # rest) i (writer, int c) =
      (map (progress_event n) [Suc i..<Suc (i + length pre)], Inl e)"
    unfolding merge_files_readable_prefix[OF assms(1) nz] tail by (simp del: upt_Suc)
  moreover from False have "(n = 0 \<and> pre \<noteq> []) = False" by simp
  ultimately show ?thesis by (simp only: if_False)
qed


lemma run_all_readable:
  assumes "map (PdfReader lib fsys) (w_files w) = map Inr docs"
  shows "run lib wr fsys h w =
    (case wr (w_output w) (render lib (kept_pages (h (w_excluded_pages w)) 1 (concat docs))) of
       OpenRaises m \<Rightarrow>
         (map (progress_event (length (w_files w))) [1..<Suc (length (w_files w))]
            @ [Error (OutputOpenFailed m)], fsys)
     | WriteRaises m partial \<Rightarrow>
         (map (progress_event (length (w_files w))) [1..<Suc (length (w_files w))]
            @ [Error (WriteFailed m)], fsys(w_output w \<mapsto> partial))
     | WriteOk \<Rightarrow>
         (map (progress_event (length (w_files w))) [1..<Suc (length (w_files w))] @ [Finished],
          fsys(w_output w \<mapsto> render lib (kept_pages (h (w_excluded_pages w)) 1 (concat docs)))))"
proof -
  have "length (w_files w) \<noteq> 0 \<or> w_files w = []" by simp
  from merge_files_all_readable[OF assms this, of h "w_excluded_pages w" 0 "[]" 1]
  show ?thesis
    by (simp add: run_def del: upt_Suc split: write_result.splits)
qed

lemma run_first_unreadable:
  assumes "w_files w = pre @ bad # rest"
    and "map (PdfReader lib fsys) pre = map Inr docs"
    and "PdfReader lib fsys bad = Inl e"
  shows "run lib wr fsys h w =
    (map (progress_event (length (w_files w))) [1..<Suc (length pre)] @ [Error e], fsys)"
proof -
  have "\<not> (length (w_files w) = 0 \<and> pre \<noteq> [])" using assms(1) by simp
  with merge_files_first_unreadable[OF assms(2,3), of h "w_excluded_pages w" "length (w_files w)" rest 0 "[]" 1]
  show ?thesis
    by (simp add: run_def assms(1) del: upt_Suc)
qed

lemma PdfReader_error:
  "PdfReader lib fsys f = Inl e \<Longrightarrow> e = OpenFailed f \<or> (\<exists>m. e = ReadFailed m)"
  by (auto simp: PdfReader_def split: option.splits sum.splits)


lemma readable_or_first_unreadable:
  "(\<exists>docs. map (PdfReader lib fsys) fs = map Inr docs) \<or>
   (\<exists>pre bad rest docs e. fs = pre @ bad # rest \<and>
      map (PdfReader lib fsys) pre = map Inr docs \<and> PdfReader lib fsys bad = Inl e)"
proof (induction fs)
  case Nil
  then show ?case by simp
next
  case (Cons f fs)
  show ?case
  proof (cases "PdfReader lib fsys f")
    case (Inl e)
    then have "f # fs = [] @ f # fs \<and> map (PdfReader lib fsys) [] = map Inr [] \<and>
        PdfReader lib fsys f = Inl e" by simp
    then show ?thesis by blast
  next
    case (Inr d)
    from Cons.IH show ?thesis
    proof
      assume "\<exists>docs. map (PdfReader lib fsys) fs = map Inr docs"
      then obtain docs where "map (PdfReader lib fsys) fs = map Inr docs" ..
      with Inr have "map (PdfReader lib fsys) (f # fs) = map Inr (d # docs)" by simp
      then show ?thesis by blast
    next
      assume "\<exists>pre bad rest docs e. fs = pre @ bad # rest \<and>
        map (PdfReader lib fsys) pre = map Inr docs \<and> PdfReader lib fsys bad = Inl e"
      then obtain pre bad rest docs e where "fs = pre @ bad # rest"
        "map (PdfReader lib fsys) pre = map Inr docs" "PdfReader lib fsys bad = Inl e"
        by blast
      with Inr have "f # fs = (f # pre) @ bad # rest \<and>
        map (PdfReader lib fsys) (f # pre) = map Inr (d # docs) \<and> PdfReader lib fsys bad = Inl e"
        by simp
      then show ?thesis by blast
    qed
  qed
qed


lemma run_events_shape:
  "\<exists>j final. j \<le> length (w_files w) \<and>
     fst (run lib wr fsys h w) = map (progress_event (length (w_files w))) [1..<Suc j] @ [final] \<and>
     (final = Finished \<or> (\<exists>e. final = Error e \<and> e \<noteq> ZeroDivisionError)) \<and>
     ((\<exists>docs. map (PdfReader lib fsys) (w_files w) = map Inr docs) \<longrightarrow> j = length (w_files w))"
proof -
  from readable_or_first_unreadable[of lib fsys "w_files w"] show ?thesis
  proof
    assume "\<exists>docs. map (PdfReader lib fsys) (w_files w) = map Inr docs"
    then obtain docs where r: "map (PdfReader lib fsys) (w_files w) = map Inr docs" ..
    let ?c = "render lib (kept_pages (h (w_excluded_pages w)) 1 (concat docs))"
    let ?final = "case wr (w_output w) ?c of WriteOk \<Rightarrow> Finished
        | OpenRaises m \<Rightarrow> Error (OutputOpenFailed m) | WriteRaises m p \<Rightarrow> Error (WriteFailed m)"
    have "fst (run lib wr fsys h w) =
        map (progress_event (length (w_files w))) [1..<Suc (length (w_files w))] @ [?final]"
      unfolding run_all_readable[OF r] by (simp split: write_result.splits)
    moreover have "?final = Finished \<or> (\<exists>e. ?final = Error e \<and> e \<noteq> ZeroDivisionError)"
      by (simp split: write_result.splits)
    ultimately show ?thesis by blast
  next
    assume "\<exists>pre bad rest docs e. w_files w = pre @ bad # rest \<and>
      map (PdfReader lib fsys) pre = map Inr docs \<and> PdfReader lib fsys bad = Inl e"
    then obtain pre bad rest docs e where d: "w_files w = pre @ bad # rest"
      and p: "map (PdfReader lib fsys) pre = map Inr docs" and b: "PdfReader lib fsys bad = Inl e"
      by blast
    have ev: "fst (run lib wr fsys h w) =
        map (progress_event (length (w_files w))) [1..<Suc (length pre)] @ [Error e]"
      unfolding run_first_unreadable[OF d p b] by simp
    have le: "length pre \<le> length (w_files w)" using d by simp
    have ne: "e \<noteq> ZeroDivisionError" using PdfReader_error[OF b] by auto
    have "\<not> (\<exists>docs. map (PdfReader lib fsys) (w_files w) = map Inr docs)"
    proof
      assume "\<exists>docs. map (PdfReader lib fsys) (w_files w) = map Inr docs"
      then obtain ds where "map (PdfReader lib fsys) (w_files w) = map Inr ds" ..
      then have "PdfReader lib fsys bad \<in> set (map Inr ds)"
        using d by (metis in_set_conv_decomp list.set_map image_eqI)
      with b show False by auto
    qed
    with ev le ne show ?thesis by blast
  qed
qed

subsection \<open>Evaluation of the progress events\<close>

lemmas nearest_double_defs = nearest_double_def ratio_scale_def bit_length.simps
  round_half_even_def Let_def

lemma percent_value_1_3: "percent_value 1 3 = 33"
proof -
  have "nearest_double 1 3 = (6004799503160661, 54)"
    by (simp add: nearest_double_defs)
  moreover have "double_mul_nat (6004799503160661, 54) 100 = nearest_double 600479950316066100 18014398509481984"
    by (simp add: double_mul_nat_def)
  moreover have "nearest_double 600479950316066100 18014398509481984 = (4691249611844266, 47)"
    by (simp add: nearest_double_defs)
  moreover have "double_trunc (4691249611844266, 47) = 33"
    by (simp add: double_trunc_def)
  ultimately show ?thesis by simp
qed

lemma percent_value_2_3: "percent_value 2 3 = 66"
proof -
  have "nearest_double 2 3 = (6004799503160661, 53)"
    by (simp add: nearest_double_defs)
  moreover have "double_mul_nat (6004799503160661, 53) 100 = nearest_double 600479950316066100 9007199254740992"
    by (simp add: double_mul_nat_def)
  moreover have "nearest_double 600479950316066100 9007199254740992 = (4691249611844266, 46)"
    by (simp add: nearest_double_defs)
  moreover have "double_trunc (4691249611844266, 46) = 66"
    by (simp add: double_trunc_def)
  ultimately show ?thesis by simp
qed

lemma percent_value_3_3: "percent_value 3 3 = 100"
proof -
  have "nearest_double 3 3 = (4503599627370496, 52)"
    by (simp add: nearest_double_defs)
  moreover have "double_mul_nat (4503599627370496, 52) 100 = nearest_double 450359962737049600 4503599627370496"
    by (simp add: double_mul_nat_def)
  moreover have "nearest_double 450359962737049600 4503599627370496 = (7036874417766400, 46)"
    by (simp add: nearest_double_defs)
  moreover have "double_trunc (7036874417766400, 46) = 100"
    by (simp add: double_trunc_def)
  ultimately show ?thesis by simp
qed

lemma percent_value_1_4: "percent_value 1 4 = 25"
proof -
  have "nearest_double 1 4 = (4503599627370496, 54)"
    by (simp add: nearest_double_defs)
  moreover have "double_mul_nat (4503599627370496, 54) 100 = nearest_double 450359962737049600 18014398509481984"
    by (simp add: double_mul_nat_def)
  moreover have "nearest_double 450359962737049600 18014398509481984 = (7036874417766400, 48)"
    by (simp add: nearest_double_defs)
  moreover have "double_trunc (7036874417766400, 48) = 25"
    by (simp add: double_trunc_def)
  ultimately show ?thesis by simp
qed

lemma percent_value_2_4: "percent_value 2 4 = 50"
proof -
  have "nearest_double 2 4 = (4503599627370496, 53)"
    by (simp add: nearest_double_defs)
  moreover have "double_mul_nat (4503599627370496, 53) 100 = nearest_double 450359962737049600 9007199254740992"
    by (simp add: double_mul_nat_def)
  moreover have "nearest_double 450359962737049600 9007199254740992 = (7036874417766400, 47)"
    by (simp add: nearest_double_defs)
  moreover have "double_trunc (7036874417766400, 47) = 50"
    by (simp add: double_trunc_def)
  ultimately show ?thesis by simp
qed

lemma percent_value_3_4: "percent_value 3 4 = 75"
proof -
  have "nearest_double 3 4 = (6755399441055744, 53)"
    by (simp add: nearest_double_defs)
  moreover have "double_mul_nat (6755399441055744, 53) 100 = nearest_double 675539944105574400 9007199254740992"
    by (simp add: double_mul_nat_def)
  moreover have "nearest_double 675539944105574400 9007199254740992 = (5277655813324800, 46)"
    by (simp add: nearest_double_defs)
  moreover have "double_trunc (5277655813324800, 46) = 75"
    by (simp add: double_trunc_def)
  ultimately show ?thesis by simp
qed

lemma percent_value_4_4: "percent_value 4 4 = 100"
proof -
  have "nearest_double 4 4 = (4503599627370496, 52)"
    by (simp add: nearest_double_defs)
  moreover have "double_mul_nat (4503599627370496, 52) 100 = nearest_double 450359962737049600 4503599627370496"
    by (simp add: double_mul_nat_def)
  moreover have "nearest_double 450359962737049600 4503599627370496 = (7036874417766400, 46)"
    by (simp add: nearest_double_defs)
  moreover have "double_trunc (7036874417766400, 46) = 100"
    by (simp add: double_trunc_def)
  ultimately show ?thesis by simp
qed

lemma percent_value_1_2: "percent_value 1 2 = 50"
proof -
  have "nearest_double 1 2 = (4503599627370496, 53)"
    by (simp add: nearest_double_defs)
  moreover have "double_mul_nat (4503599627370496, 53) 100 = nearest_double 450359962737049600 9007199254740992"
    by (simp add: double_mul_nat_def)
  moreover have "nearest_double 450359962737049600 9007199254740992 = (7036874417766400, 47)"
    by (simp add: nearest_double_defs)
  moreover have "double_trunc (7036874417766400, 47) = 50"
    by (simp add: double_trunc_def)
  ultimately show ?thesis by simp
qed

lemma percent_value_2_2: "percent_value 2 2 = 100"
proof -
  have "nearest_double 2 2 = (4503599627370496, 52)"
    by (simp add: nearest_double_defs)
  moreover have "double_mul_nat (4503599627370496, 52) 100 = nearest_double 450359962737049600 4503599627370496"
    by (simp add: double_mul_nat_def)
  moreover have "nearest_double 450359962737049600 4503599627370496 = (7036874417766400, 46)"
    by (simp add: nearest_double_defs)
  moreover have "double_trunc (7036874417766400, 46) = 100"
    by (simp add: double_trunc_def)
  ultimately show ?thesis by simp
qed

lemma percent_value_29_100: "percent_value 29 100 = 28"
proof -
  have "nearest_double 29 100 = (5224175567749775, 54)"
    by (simp add: nearest_double_defs)
  moreover have "double_mul_nat (5224175567749775, 54) 100 = nearest_double 522417556774977500 18014398509481984"
    by (simp add: double_mul_nat_def)
  moreover have "nearest_double 522417556774977500 18014398509481984 = (8162774324609023, 48)"
    by (simp add: nearest_double_defs)
  moreover have "double_trunc (8162774324609023, 48) = 28"
    by (simp add: double_trunc_def)
  ultimately show ?thesis by simp
qed

lemmas percent_value_examples = percent_value_1_3 percent_value_2_3 percent_value_3_3 percent_value_1_4 percent_value_2_4 percent_value_3_4 percent_value_4_4 percent_value_1_2 percent_value_2_2 percent_value_29_100

lemma status_examples:
  "status 1 3 = ''Merging file 1 of 3''" "status 2 3 = ''Merging file 2 of 3''"
  "status 3 3 = ''Merging file 3 of 3''"
  by (simp_all add: status_def str_nat.simps digit_char_values)

lemma upt_examples:
  "[1..<Suc 4] = [1, 2, 3, 4]" "[1..<Suc 3] = [1, 2, 3]" "[1..<Suc 2] = [1, 2]"
  by (simp_all add: upt_rec)


lemma round_example: "round (100 * 2 / 3 :: real) = 67"
  by (simp add: round_def)

lemma status_examples4:
  "status 1 4 = ''Merging file 1 of 4''" "status 2 4 = ''Merging file 2 of 4''"
  "status 3 4 = ''Merging file 3 of 4''" "status 4 4 = ''Merging file 4 of 4''"
  by (simp_all add: status_def str_nat.simps digit_char_values)

lemma example_run:
  "run example_lib (\<lambda>p c. WriteOk) example_fs (\<lambda>_. {1, 4, 6}) example_worker =
     ([Progress 33 ''Merging file 1 of 3'', Progress 66 ''Merging file 2 of 3'',
       Progress 100 ''Merging file 3 of 3'', Finished],
      example_fs(''out'' \<mapsto> Inr [11, 20, 22]))"
proof -
  have r: "map (PdfReader example_lib example_fs) (w_files example_worker)
      = map Inr [[10, 11], [20, 21, 22], [30]]"
    by (simp add: PdfReader_def)
  have len: "length (w_files example_worker) = 3" by simp
  show ?thesis
    unfolding run_all_readable[OF r] len upt_examples
    by (simp add: percent_value_examples percent_value_examples[unfolded One_nat_def]
        status_examples status_examples[unfolded One_nat_def] enumerate_simps)
qed

subsection \<open>Runs on file systems that agree on the sources\<close>

lemma run_events_snoc:
  "\<exists>x. fst (run lib wr fsys h w) =
     fst (merge_files lib fsys h (w_excluded_pages w) (length (w_files w)) (w_files w) 0 ([], 1)) @ [x]"
  by (auto simp: run_def split: prod.splits sum.splits write_result.splits)





lemma run_events_readable_prefix:
  assumes "k \<le> length (w_files w)"
    and "map (PdfReader lib fsys) (take k (w_files w)) = map Inr docs"
  shows "\<exists>evs. fst (run lib wr fsys h w) =
           map (progress_event (length (w_files w))) [1..<Suc k] @ evs"
proof -
  let ?n = "length (w_files w)"
  have nz: "?n \<noteq> 0 \<or> take k (w_files w) = []" by auto
  have split: "w_files w = take k (w_files w) @ drop k (w_files w)" by simp
  have lk: "length (take k (w_files w)) = k" using assms(1) by simp
  from merge_files_readable_prefix[OF assms(2) nz, of h "w_excluded_pages w" "drop k (w_files w)" 0 "[]" 1]
  obtain evs where "fst (merge_files lib fsys h (w_excluded_pages w) ?n
       (take k (w_files w) @ drop k (w_files w)) 0 ([], 1)) =
       map (progress_event ?n) [1..<Suc k] @ evs"
    unfolding lk by (auto simp del: upt_Suc split: prod.splits)
  then have "fst (merge_files lib fsys h (w_excluded_pages w) ?n (w_files w) 0 ([], 1)) =
       map (progress_event ?n) [1..<Suc k] @ evs"
    by simp
  moreover obtain x where "fst (run lib wr fsys h w) =
     fst (merge_files lib fsys h (w_excluded_pages w) ?n (w_files w) 0 ([], 1)) @ [x]"
    using run_events_snoc by blast
  ultimately have "fst (run lib wr fsys h w) = map (progress_event ?n) [1..<Suc k] @ (evs @ [x])"
    by simp
  then show ?thesis ..
qed

subsection \<open>The steps of the worker and the whole run\<close>

lemma finish_start: "finish lib wr fsys h w (start w) = run lib wr fsys h w"
  by (simp add: finish_def start_def run_def split: prod.splits sum.splits write_result.splits)

lemma finish_stopped: "\<not> t_running t \<Longrightarrow> finish lib wr fsys h w t = (t_emitted t, fsys)"
  by (simp add: finish_def)

lemma finish_step:
  assumes "worker_step lib wr fsys h w t = (t', fsys')"
  shows "finish lib wr fsys' h w t' = finish lib wr fsys h w t"
proof (cases "t_running t")
  case False
  with assms show ?thesis by (simp add: worker_step_def)
next
  case True
  show ?thesis
  proof (cases "t_pages t")
    case None
    show ?thesis
    proof (cases "t_todo t")
      case Nil
      with assms True None show ?thesis
        by (auto simp: worker_step_def finish_def split: write_result.splits)
    next
      case (Cons pdf rest)
      with assms True None show ?thesis
        by (auto simp: worker_step_def finish_def split: sum.splits prod.splits write_result.splits)
    qed
  next
    case (Some pages)
    show ?thesis
    proof (cases pages)
      case Nil
      with assms True Some show ?thesis
        by (auto simp: worker_step_def finish_def split: sum.splits prod.splits write_result.splits)
    next
      case (Cons page ps)
      with assms True Some show ?thesis
        by (auto simp: worker_step_def finish_def split: sum.splits prod.splits write_result.splits)
    qed
  qed
qed

lemma worker_step_stopped:
  "\<not> t_running t \<Longrightarrow> worker_step lib wr fsys h w t = (t, fsys)"
  by (simp add: worker_step_def)

lemma worker_step_decreases:
  assumes "worker_step lib wr fsys h w t = (t', fsys')" and "t_running t"
  shows "steps_left lib fsys' t' < steps_left lib fsys t"
proof (cases "t_pages t")
  case None
  show ?thesis
  proof (cases "t_todo t")
    case Nil
    with assms None show ?thesis
      by (auto simp: worker_step_def steps_left_def split: write_result.splits)
  next
    case (Cons pdf rest)
    with assms None show ?thesis
      by (auto simp: worker_step_def steps_left_def split: sum.splits)
  qed
next
  case (Some pages)
  with assms show ?thesis
    by (cases pages) (auto simp: worker_step_def steps_left_def split: sum.splits)
qed

lemma worker_steps_finish:
  "steps_left lib fsys t \<le> k \<Longrightarrow>
   \<not> t_running (snd (snd (snd (exec lib wr w (replicate k WorkerStep) (a, h, fsys, t)))))"
proof (induction k arbitrary: fsys t)
  case 0
  then show ?case by (simp add: steps_left_def split: if_splits)
next
  case (Suc k)
  obtain t' fsys' where st: "worker_step lib wr fsys h w t = (t', fsys')"
    by (cases "worker_step lib wr fsys h w t")
  have "steps_left lib fsys' t' \<le> k"
  proof (cases "t_running t")
    case True
    from worker_step_decreases[OF st True] Suc.prems show ?thesis by simp
  next
    case False
    with st have "t' = t" by (simp add: worker_step_def)
    with False show ?thesis by (simp add: steps_left_def)
  qed
  from Suc.IH[OF this] st show ?case by simp
qed

lemma exec_without_parser:
  assumes "\<forall>act\<in>set acts. \<forall>input. act \<noteq> ApplyPageRemoval input"
    and "exec lib wr w acts (a, h, fsys, t) = (a', h', fsys', t')"
  shows "h' = h \<and> finish lib wr fsys' h w t' = finish lib wr fsys h w t"
  using assms
proof (induction acts arbitrary: a fsys t)
  case Nil
  then show ?case by simp
next
  case (Cons act acts)
  from Cons.prems(1) have rest: "\<forall>act\<in>set acts. \<forall>input. act \<noteq> ApplyPageRemoval input" by simp
  show ?case
  proof (cases act)
    case WorkerStep
    obtain t1 fsys1 where st: "worker_step lib wr fsys h w t = (t1, fsys1)"
      by (cases "worker_step lib wr fsys h w t")
    with Cons.prems(2) WorkerStep have "exec lib wr w acts (a, h, fsys1, t1) = (a', h', fsys', t')"
      by simp
    from Cons.IH[OF rest this] finish_step[OF st] show ?thesis by simp
  next
    case (ApplyPageRemoval input)
    with Cons.prems(1) show ?thesis by simp
  next
    case (ListChanged its label)
    with Cons.prems(2) have "exec lib wr w acts (a\<lparr>items := its, page_count_label := label\<rparr>, h, fsys, t)
        = (a', h', fsys', t')" by simp
    from Cons.IH[OF rest this] show ?thesis .
  qed
qed

lemmas step_defs = worker_step_def start_def PdfReader_def percent_nonzero

subsection \<open>C5: an empty input or one of spaces only\<close>

text \<open>
  Claim C5, as the code has it. \<^verbatim>\<open>text.replace(" ", "")\<close> removes the space character
  and no other whitespace. For every input that is empty or consists of spaces only, the
  call empties the exclusion set (and leaves every other set object alone) and never shows
  the invalid-format warning; it returns normally whenever the files of the list widget can
  be read for the refresh of the page-count label (that refresh runs outside the
  \<^verbatim>\<open>try\<close> in this branch).
\<close>

theorem spaces_only_clears_without_warning:
  assumes "set input \<subseteq> {CHR '' ''}"
  shows "fst (snd (apply_page_removal lib fsys h a input)) = h(excluded_pages a := {}) \<and>
         fst (apply_page_removal lib fsys h a input) \<noteq> Warned \<and>
         (\<forall>n. count_pages lib fsys (get_files a) 0 = Inr n \<longrightarrow>
              fst (apply_page_removal lib fsys h a input) = Returned)"
proof -
  from assms have "filter (\<lambda>c. c \<noteq> CHR '' '') input = []"
    by (auto simp: filter_empty_conv)
  note eq = apply_page_removal_empty[OF this, of lib fsys h a]
  show ?thesis
    unfolding eq using update_page_count_readable[of lib fsys a _ "h(excluded_pages a := {})"]
    by (auto split: sum.splits)
qed

theorem spaces_only_clears_without_warning_witness:
  "set ''   '' \<subseteq> {CHR '' ''} \<and>
   fst (snd (apply_page_removal example_lib Map.empty (\<lambda>_. {7}) example_app ''   '')) 0 = {} \<and>
   fst (apply_page_removal example_lib Map.empty (\<lambda>_. {7}) example_app ''   '') = Returned"
  using spaces_only_clears_without_warning[of "''   ''" example_lib Map.empty "\<lambda>_. {7}" example_app]
  by (simp add: get_files_def)

text \<open>
  The claim as written speaks of any whitespace. A single tab is whitespace (also for
  \<^verbatim>\<open>int\<close>, which strips it), it is not removed by \<^verbatim>\<open>replace(" ", "")\<close>, and
  \<^verbatim>\<open>int("\t")\<close> raises: the call ends in the warning.
\<close>

theorem tab_only_is_rejected:
  "int_isspace (CHR 0x09) \<and>
   fst (apply_page_removal example_lib Map.empty (\<lambda>_. {}) example_app [CHR 0x09]) = Warned"
  by (simp add: apply_page_removal_def Let_def part_pages_def int_defs)

subsection \<open>C4: the set a successful parse leaves\<close>

text \<open>
  Claim C4. Whenever the call returns normally, the exclusion set holds exactly the pages
  \<open>p\<close> for which some comma-separated token of the input (spaces removed) is either a
  range \<open>x-y\<close> of two integers with \<open>x \<le> p \<le> y\<close> (nothing when \<open>x > y\<close>) or a bare
  integer equal to \<open>p\<close>. For the inputs \<^verbatim>\<open>2,5,8-10\<close>, \<^verbatim>\<open>3-3\<close> and \<^verbatim>\<open>5-2\<close> the set is
  \<open>{2,5,8,9,10}\<close>, \<open>{3}\<close> and \<open>{}\<close>, and the call returns normally (no warning) whenever
  the listed files can be read for the label refresh.
\<close>

theorem parse_success_is_union_of_tokens:
  "(apply_page_removal lib fsys h a input = (Returned, h', a') \<longrightarrow>
      h' (excluded_pages a) =
        {p. \<exists>tok\<in>set (split_on CHR '','' (filter (\<lambda>c. c \<noteq> CHR '' '') input)).
              (\<exists>x y lo hi. tok = x @ CHR ''-'' # y \<and> CHR ''-'' \<notin> set x \<and> CHR ''-'' \<notin> set y \<and>
                 py_int x = Some lo \<and> py_int y = Some hi \<and> lo \<le> p \<and> p \<le> hi) \<or>
              (CHR ''-'' \<notin> set tok \<and> py_int tok = Some p)}) \<and>
   fst (snd (apply_page_removal lib fsys h a ''2,5,8-10'')) (excluded_pages a) = {2, 5, 8, 9, 10} \<and>
   fst (snd (apply_page_removal lib fsys h a ''3-3'')) (excluded_pages a) = {3} \<and>
   fst (snd (apply_page_removal lib fsys h a ''5-2'')) (excluded_pages a) = {} \<and>
   (count_pages lib fsys (get_files a) 0 = Inr n \<longrightarrow>
      fst (apply_page_removal lib fsys h a ''2,5,8-10'') = Returned \<and>
      fst (apply_page_removal lib fsys h a ''3-3'') = Returned \<and>
      fst (apply_page_removal lib fsys h a ''5-2'') = Returned)"
proof -
  let ?r = "excluded_pages a"
  let ?toks = "split_on CHR '','' (filter (\<lambda>c. c \<noteq> CHR '' '') input)"
  let ?U = "\<Union>t\<in>set ?toks. \<Union>(set_option (part_pages t))"
  have U: "?U = {p. \<exists>tok\<in>set ?toks.
              (\<exists>x y lo hi. tok = x @ CHR ''-'' # y \<and> CHR ''-'' \<notin> set x \<and> CHR ''-'' \<notin> set y \<and>
                 py_int x = Some lo \<and> py_int y = Some hi \<and> lo \<le> p \<and> p \<le> hi) \<or>
              (CHR ''-'' \<notin> set tok \<and> py_int tok = Some p)}"
    (is "_ = ?S")
  proof (rule set_eqI)
    fix p
    have "p \<in> ?U \<longleftrightarrow> (\<exists>tok\<in>set ?toks. p \<in> \<Union>(set_option (part_pages tok)))" by blast
    also have "\<dots> \<longleftrightarrow> p \<in> ?S" unfolding part_pages_mem by simp
    finally show "p \<in> ?U \<longleftrightarrow> p \<in> ?S" .
  qed
  have general: "h' ?r = ?S" if ret: "apply_page_removal lib fsys h a input = (Returned, h', a')"
  proof (cases "filter (\<lambda>c. c \<noteq> CHR '' '') input = []")
    case True
    from ret have "h' = h(?r := {})"
      unfolding apply_page_removal_empty[OF True] by (auto split: sum.splits)
    moreover have "?U = {}"
      using True by (simp add: part_pages_def int_defs)
    ultimately show ?thesis using U by simp
  next
    case False
    from ret obtain h1 where loop: "removal_loop (h(?r := {})) ?r ?toks = (True, h1)" and "h' = h1"
      unfolding apply_page_removal_nonempty[OF False]
      by (auto split: prod.splits bool.splits sum.splits)
    from removal_loop_True[OF loop, unfolded upd_empty_Un] \<open>h' = h1\<close> have "h' = h(?r := ?U)"
      by simp
    then show ?thesis using U by simp
  qed
  have ex1: "fst (snd (apply_page_removal lib fsys h a ''2,5,8-10'')) ?r = {2, 5, 8, 9, 10}"
    by (subst apply_page_removal_all_good(1)) (auto simp: part_pages_examples)
  have ex2: "fst (snd (apply_page_removal lib fsys h a ''3-3'')) ?r = {3}"
    by (subst apply_page_removal_all_good(1)) (auto simp: part_pages_examples)
  have ex3: "fst (snd (apply_page_removal lib fsys h a ''5-2'')) ?r = {}"
    by (subst apply_page_removal_all_good(1)) (auto simp: part_pages_examples)
  have ret: "fst (apply_page_removal lib fsys h a ''2,5,8-10'') = Returned \<and>
      fst (apply_page_removal lib fsys h a ''3-3'') = Returned \<and>
      fst (apply_page_removal lib fsys h a ''5-2'') = Returned"
    if "count_pages lib fsys (get_files a) 0 = Inr n"
    using that
    by (intro conjI apply_page_removal_all_good(2)[where n = n]) (simp_all add: part_pages_examples)
  from general ex1 ex2 ex3 ret show ?thesis by blast
qed

theorem parse_success_is_union_of_tokens_witness:
  "apply_page_removal example_lib Map.empty (\<lambda>_. {7}) example_app ''1, 4-6''
     = (Returned, (\<lambda>_. {7})(0 := {1, 4, 5, 6}), example_app) \<and>
   ((\<lambda>_. {7})(0 := {1, 4, 5, 6})) (excluded_pages example_app) =
        {p. \<exists>tok\<in>set (split_on CHR '','' (filter (\<lambda>c. c \<noteq> CHR '' '') ''1, 4-6'')).
              (\<exists>x y lo hi. tok = x @ CHR ''-'' # y \<and> CHR ''-'' \<notin> set x \<and> CHR ''-'' \<notin> set y \<and>
                 py_int x = Some lo \<and> py_int y = Some hi \<and> lo \<le> p \<and> p \<le> hi) \<or>
              (CHR ''-'' \<notin> set tok \<and> py_int tok = Some p)} \<and>
   count_pages example_lib Map.empty (get_files example_app) 0 = Inr 0 \<and>
   fst (apply_page_removal example_lib Map.empty (\<lambda>_. {7}) example_app ''5-2'') = Returned"
proof -
  have run: "apply_page_removal example_lib Map.empty (\<lambda>_. {7}) example_app ''1, 4-6''
     = (Returned, (\<lambda>_. {7})(0 := {1, 4, 5, 6}), example_app)"
  proof -
    have "insert 1 {4..6::int} = {1, 4, 5, 6}" by auto
    then show ?thesis
      by (simp add: apply_page_removal_def Let_def part_pages_def int_defs update_page_count_def
          get_files_def str_nat.simps digit_char_values)
  qed
  have cnt: "count_pages example_lib Map.empty (get_files example_app) 0 = Inr 0"
    by (simp add: get_files_def)
  from parse_success_is_union_of_tokens[of example_lib Map.empty "\<lambda>_. {7}" example_app "''1, 4-6''"
      "(\<lambda>_. {7})(0 := {1, 4, 5, 6})" example_app 0] run cnt
  show ?thesis by simp
qed

subsection \<open>C1: a token that is not valid\<close>

text \<open>
  Claim C1, as the code has it. Let the input (spaces removed) be non-empty and let its
  tokens be \<open>good @ bad # rest\<close>, where every token of \<open>good\<close> is accepted and \<open>bad\<close> is
  the first that is not: a bare token \<^verbatim>\<open>int\<close> refuses, or a token with a hyphen that is
  not two integers separated by exactly one hyphen. Then the call shows the invalid-format
  warning, the label is untouched, and the exclusion set holds exactly the pages of the
  tokens of \<open>good\<close>: what it held before the call is gone, since the set is cleared first.
\<close>

theorem invalid_token_warns_after_clearing:
  assumes ne: "filter (\<lambda>c. c \<noteq> CHR '' '') input \<noteq> []"
    and toks: "split_on CHR '','' (filter (\<lambda>c. c \<noteq> CHR '' '') input) = good @ bad # rest"
    and good: "\<forall>t\<in>set good. part_pages t \<noteq> None"
    and bad: "(CHR ''-'' \<notin> set bad \<and> py_int bad = None) \<or>
              (CHR ''-'' \<in> set bad \<and>
               (\<nexists>x y. bad = x @ CHR ''-'' # y \<and> CHR ''-'' \<notin> set x \<and> CHR ''-'' \<notin> set y \<and>
                  py_int x \<noteq> None \<and> py_int y \<noteq> None))"
  shows "apply_page_removal lib fsys h a input =
           (Warned,
            h(excluded_pages a := (\<Union>t\<in>set good. \<Union>(set_option (part_pages t)))),
            a)"
proof -
  from bad have "part_pages bad = None"
    unfolding part_pages_None .
  from removal_loop_first_bad[OF good this, of "h(excluded_pages a := {})" "excluded_pages a" rest]
  have "removal_loop (h(excluded_pages a := {})) (excluded_pages a)
          (split_on CHR '','' (filter (\<lambda>c. c \<noteq> CHR '' '') input)) =
        (False, h(excluded_pages a := (\<Union>t\<in>set good. \<Union>(set_option (part_pages t)))))"
    unfolding upd_empty_Un toks .
  then show ?thesis
    unfolding apply_page_removal_nonempty[OF ne] by simp
qed

theorem invalid_token_warns_after_clearing_witness:
  "filter (\<lambda>c. c \<noteq> CHR '' '') ''2,a,9'' \<noteq> [] \<and>
   split_on CHR '','' (filter (\<lambda>c. c \<noteq> CHR '' '') ''2,a,9'') = [''2''] @ ''a'' # [''9''] \<and>
   part_pages ''2'' = Some {2} \<and>
   CHR ''-'' \<notin> set ''a'' \<and> py_int ''a'' = None \<and>
   apply_page_removal example_lib Map.empty (\<lambda>_. {7}) example_app ''2,a,9'' =
     (Warned, (\<lambda>_. {7})(0 := {2}), example_app)"
proof -
  have 1: "filter (\<lambda>c. c \<noteq> CHR '' '') ''2,a,9'' \<noteq> []" by simp
  have 2: "split_on CHR '','' (filter (\<lambda>c. c \<noteq> CHR '' '') ''2,a,9'') = [''2''] @ ''a'' # [''9'']"
    by simp
  have 3: "\<forall>t\<in>set [''2'']. part_pages t \<noteq> None" by (simp add: part_pages_examples)
  have 4: "CHR ''-'' \<notin> set ''a'' \<and> py_int ''a'' = None" by (simp add: int_defs)
  from invalid_token_warns_after_clearing[OF 1 2 3, of example_lib Map.empty "\<lambda>_. {7}" example_app] 4
  have "apply_page_removal example_lib Map.empty (\<lambda>_. {7}) example_app ''2,a,9'' =
     (Warned, (\<lambda>_. {7})(0 := {2}), example_app)"
    by (simp add: part_pages_examples)
  with 1 2 4 show ?thesis by (simp add: part_pages_examples)
qed

text \<open>
  The claim as written says the stored set is left as it was. With \<open>{7}\<close> stored, the input
  \<^verbatim>\<open>2,a\<close> ends in the warning and leaves \<open>{2}\<close>.
\<close>

theorem failed_parse_changes_stored_set:
  "part_pages ''a'' = None \<and>
   fst (apply_page_removal example_lib Map.empty (\<lambda>_. {7}) example_app ''2,a'') = Warned \<and>
   fst (snd (apply_page_removal example_lib Map.empty (\<lambda>_. {7}) example_app ''2,a''))
     (excluded_pages example_app) = {2} \<and>
   fst (snd (apply_page_removal example_lib Map.empty (\<lambda>_. {7}) example_app ''2,a''))
     (excluded_pages example_app) \<noteq> (\<lambda>_. {7}) (excluded_pages example_app)"
  by (simp add: apply_page_removal_def Let_def part_pages_def int_defs)

subsection \<open>C2: the pages the merge keeps\<close>

text \<open>
  Claim C2. When every listed file can be read, with \<open>docs\<close> the page lists of the
  documents in list order, the loops end with the writer holding exactly the pages of
  \<open>concat docs\<close> (documents in list order, pages in their own order) whose 1-based position
  in that concatenation is not in the exclusion set, and with the page counter at one more
  than the number of all pages: it advanced once per page, kept or not. When the write
  succeeds the output file holds these pages rendered. Documents of 2, 3 and 1 pages with
  the set \<open>{1, 4, 6}\<close> leave the pages at positions 2, 3 and 5, in that order; two
  one-page documents with the empty set leave both pages in list order.
\<close>

theorem merge_keeps_pages_not_excluded:
  "(map (PdfReader lib fsys) (w_files w) = map Inr docs \<longrightarrow>
      snd (merge_files lib fsys h (w_excluded_pages w) (length (w_files w)) (w_files w) 0 ([], 1)) =
        Inr (map snd (filter (\<lambda>(i, p). int i \<notin> h (w_excluded_pages w))
                        (enumerate 1 (concat docs))),
             1 + int (length (concat docs))) \<and>
      (wr (w_output w)
          (render lib (map snd (filter (\<lambda>(i, p). int i \<notin> h (w_excluded_pages w))
                                   (enumerate 1 (concat docs))))) = WriteOk \<longrightarrow>
       snd (run lib wr fsys h w) (w_output w) =
         Some (render lib (map snd (filter (\<lambda>(i, p). int i \<notin> h (w_excluded_pages w))
                                      (enumerate 1 (concat docs))))))) \<and>
   map snd (filter (\<lambda>(i, p). int i \<notin> {1, 4, 6}) (enumerate 1 (concat [[a, b], [c, d, e], [f]])))
     = [b, c, e] \<and>
   map snd (filter (\<lambda>(i, p). int i \<notin> {}) (enumerate 1 (concat [[a], [b]]))) = [a, b]"
proof -
  have 1: "snd (merge_files lib fsys h (w_excluded_pages w) (length (w_files w)) (w_files w) 0 ([], 1)) =
        Inr (kept_pages (h (w_excluded_pages w)) 1 (concat docs), 1 + int (length (concat docs)))"
    if r: "map (PdfReader lib fsys) (w_files w) = map Inr docs"
  proof -
    have "length (w_files w) \<noteq> 0 \<or> w_files w = []" by simp
    from merge_files_all_readable[OF r this, of h "w_excluded_pages w" 0 "[]" 1]
    show ?thesis by (simp del: upt_Suc)
  qed
  have 2: "snd (run lib wr fsys h w) (w_output w) =
         Some (render lib (kept_pages (h (w_excluded_pages w)) 1 (concat docs)))"
    if r: "map (PdfReader lib fsys) (w_files w) = map Inr docs"
      and ok: "wr (w_output w) (render lib (kept_pages (h (w_excluded_pages w)) 1 (concat docs))) = WriteOk"
    unfolding run_all_readable[OF r] ok by simp
  have 3: "kept_pages {1, 4, 6} 1 (concat [[a, b], [c, d, e], [f]]) = [b, c, e]"
    by (simp add: enumerate_simps)
  have 4: "kept_pages {} 1 (concat [[a], [b]]) = [a, b]"
    by simp
  from 1 2 3 4 show ?thesis by blast
qed

theorem merge_keeps_pages_not_excluded_witness:
  "map (PdfReader example_lib [''a'' \<mapsto> Inr [10, 11], ''b'' \<mapsto> Inr [20, 21, 22], ''c'' \<mapsto> Inr [30]])
       (w_files \<lparr>w_files = [''a'', ''b'', ''c''], w_output = ''out'', w_excluded_pages = 0\<rparr>)
     = map Inr [[10, 11], [20, 21, 22], [30]] \<and>
   snd (run example_lib (\<lambda>p c. WriteOk)
          [''a'' \<mapsto> Inr [10, 11], ''b'' \<mapsto> Inr [20, 21, 22], ''c'' \<mapsto> Inr [30]]
          (\<lambda>_. {1, 4, 6})
          \<lparr>w_files = [''a'', ''b'', ''c''], w_output = ''out'', w_excluded_pages = 0\<rparr>) ''out''
     = Some (Inr [11, 20, 22])"
proof -
  let ?fs = "[''a'' \<mapsto> Inr [10, 11], ''b'' \<mapsto> Inr [20, 21, 22], ''c'' \<mapsto> Inr [30::nat]]
               :: (string + nat list) fs"
  let ?w = "\<lparr>w_files = [''a'', ''b'', ''c''], w_output = ''out'', w_excluded_pages = 0\<rparr>"
  have r: "map (PdfReader example_lib ?fs) (w_files ?w) = map Inr [[10, 11], [20, 21, 22], [30]]"
    by (simp add: PdfReader_def)
  from merge_keeps_pages_not_excluded[of example_lib ?fs ?w "[[10, 11], [20, 21, 22], [30]]"
      "\<lambda>_. {1, 4, 6}" "\<lambda>p c. WriteOk"] r
  show ?thesis by (simp add: enumerate_simps)
qed

subsection \<open>C6: a source that cannot be read\<close>

text \<open>
  Claim C6. Let the file list be \<open>pre @ bad # rest\<close>, where the files of \<open>pre\<close> can be
  read and \<open>bad\<close> is the first that cannot: it cannot be opened, or PyPDF2 raises on it.
  Then the run emits the progress events of the files of \<open>pre\<close> and after them the error
  event with the exception of \<open>bad\<close>, and nothing else: no file of \<open>rest\<close> is looked at
  (the result does not depend on \<open>rest\<close> beyond its length, nor on the answer of the file
  system to a write), and the file system is left as it was: no output file is created,
  truncated or written.
\<close>

theorem unreadable_source_aborts_without_output:
  assumes "w_files w = pre @ bad # rest"
    and "map (PdfReader lib fsys) pre = map Inr docs"
    and "PdfReader lib fsys bad = Inl e"
  shows "run lib wr fsys h w =
           (map (progress_event (length (w_files w))) [1..<Suc (length pre)] @ [Error e], fsys) \<and>
         (e = OpenFailed bad \<or> (\<exists>m. e = ReadFailed m))"
  using run_first_unreadable[OF assms, of wr h] PdfReader_error[OF assms(3)] by simp

theorem unreadable_source_aborts_without_output_witness:
  "w_files example_worker = [''a''] @ ''b'' # [''c''] \<and>
   map (PdfReader example_lib [''a'' \<mapsto> Inr [10, 11], ''b'' \<mapsto> Inl ''corrupt'', ''c'' \<mapsto> Inr [30]]) [''a'']
     = map Inr [[10, 11]] \<and>
   PdfReader example_lib [''a'' \<mapsto> Inr [10, 11], ''b'' \<mapsto> Inl ''corrupt'', ''c'' \<mapsto> Inr [30]] ''b''
     = Inl (ReadFailed ''corrupt'') \<and>
   run example_lib (\<lambda>p c. WriteOk)
       [''a'' \<mapsto> Inr [10, 11], ''b'' \<mapsto> Inl ''corrupt'', ''c'' \<mapsto> Inr [30]] (\<lambda>_. {}) example_worker
     = ([Progress 33 ''Merging file 1 of 3'', Error (ReadFailed ''corrupt'')],
        [''a'' \<mapsto> Inr [10, 11], ''b'' \<mapsto> Inl ''corrupt'', ''c'' \<mapsto> Inr [30]]) \<and>
   [''a'' \<mapsto> Inr [10, 11], ''b'' \<mapsto> Inl ''corrupt'', ''c'' \<mapsto> Inr [30 :: nat]] ''out'' = None"
proof -
  let ?fs = "[''a'' \<mapsto> Inr [10, 11], ''b'' \<mapsto> Inl ''corrupt'', ''c'' \<mapsto> Inr [30::nat]]
               :: (string + nat list) fs"
  have 1: "w_files example_worker = [''a''] @ ''b'' # [''c'']" by simp
  have 2: "map (PdfReader example_lib ?fs) [''a''] = map Inr [[10, 11]]"
    by (simp add: PdfReader_def)
  have 3: "PdfReader example_lib ?fs ''b'' = Inl (ReadFailed ''corrupt'')"
    by (simp add: PdfReader_def)
  have len: "length (w_files example_worker) = 3" by simp
  have idx: "[1..<Suc (length [''a''])] = [1]" by simp
  note inst = unreadable_source_aborts_without_output[OF 1 2 3, of "\<lambda>p c. WriteOk" "\<lambda>_. {}",
      unfolded len idx]
  from inst 2 3 show ?thesis
    by (simp add: percent_value_examples percent_value_examples[unfolded One_nat_def]
        status_examples status_examples[unfolded One_nat_def])
qed

subsection \<open>C10: the empty file list\<close>

text \<open>
  Claim C10. For the empty file list the run emits no progress event and hands the
  writer's zero pages to the file system: the completion event and an output document of
  zero pages when the write succeeds, the write's own error otherwise. The percentage is
  computed inside the loop over the files only, so that no run of any file list ends in a
  division by zero.
\<close>

theorem empty_file_list_writes_empty_document:
  "(w_files w = [] \<longrightarrow>
      run lib wr fsys h w =
        (case wr (w_output w) (render lib []) of
           WriteOk \<Rightarrow> ([Finished], fsys(w_output w \<mapsto> render lib []))
         | OpenRaises m \<Rightarrow> ([Error (OutputOpenFailed m)], fsys)
         | WriteRaises m partial \<Rightarrow> ([Error (WriteFailed m)], fsys(w_output w \<mapsto> partial)))) \<and>
   Error ZeroDivisionError \<notin> set (fst (run lib wr fsys h w))"
proof -
  have "run lib wr fsys h w =
        (case wr (w_output w) (render lib []) of
           WriteOk \<Rightarrow> ([Finished], fsys(w_output w \<mapsto> render lib []))
         | OpenRaises m \<Rightarrow> ([Error (OutputOpenFailed m)], fsys)
         | WriteRaises m partial \<Rightarrow> ([Error (WriteFailed m)], fsys(w_output w \<mapsto> partial)))"
    if "w_files w = []"
    using that by (simp add: run_def split: write_result.splits)
  moreover have "Error ZeroDivisionError \<notin> set (fst (run lib wr fsys h w))"
    using run_events_shape[of w lib wr fsys h] by auto
  ultimately show ?thesis by blast
qed

theorem empty_file_list_writes_empty_document_witness:
  "w_files \<lparr>w_files = [], w_output = ''out'', w_excluded_pages = 0\<rparr> = [] \<and>
   run example_lib (\<lambda>p c. WriteOk) Map.empty (\<lambda>_. {})
       \<lparr>w_files = [], w_output = ''out'', w_excluded_pages = 0\<rparr>
     = ([Finished], [''out'' \<mapsto> Inr []])"
  using empty_file_list_writes_empty_document[of "\<lparr>w_files = [], w_output = ''out'', w_excluded_pages = 0\<rparr>"
      example_lib "\<lambda>p c. WriteOk" Map.empty "\<lambda>_. {}"]
  by simp

subsection \<open>C9: the merge is a function of its inputs\<close>



subsection \<open>C7: the order of the events\<close>

text \<open>
  Claim C7, as the code has it. The events of every run are the progress events of the
  files 1 to \<open>j\<close>, in this order, followed by exactly one final event, the completion or
  an error; \<open>j\<close> is the number of all files when every source can be read, and the number
  of files before the first unreadable one otherwise. A merge of four readable files emits
  the percentages 25, 50, 75 and 100.
\<close>

theorem progress_events_in_file_order:
  "(\<exists>j final. j \<le> length (w_files w) \<and>
      fst (run lib wr fsys h w) =
        map (progress_event (length (w_files w))) [1..<Suc j] @ [final] \<and>
      (final = Finished \<or> (\<exists>e. final = Error e)) \<and>
      ((\<exists>docs. map (PdfReader lib fsys) (w_files w) = map Inr docs) \<longrightarrow> j = length (w_files w))) \<and>
   (w_files w = pre @ bad # rest \<and> map (PdfReader lib fsys) pre = map Inr ds \<and>
    PdfReader lib fsys bad = Inl e \<longrightarrow>
      fst (run lib wr fsys h w) =
        map (progress_event (length (w_files w))) [1..<Suc (length pre)] @ [Error e]) \<and>
   (length (w_files w) = 4 \<and> (\<exists>docs. map (PdfReader lib fsys) (w_files w) = map Inr docs) \<longrightarrow>
      (\<exists>final. fst (run lib wr fsys h w) =
         [Progress 25 ''Merging file 1 of 4'', Progress 50 ''Merging file 2 of 4'',
          Progress 75 ''Merging file 3 of 4'', Progress 100 ''Merging file 4 of 4'', final] \<and>
         (final = Finished \<or> (\<exists>e. final = Error e))))"
proof -
  have shape: "\<exists>j final. j \<le> length (w_files w) \<and>
      fst (run lib wr fsys h w) =
        map (progress_event (length (w_files w))) [1..<Suc j] @ [final] \<and>
      (final = Finished \<or> (\<exists>e. final = Error e)) \<and>
      ((\<exists>docs. map (PdfReader lib fsys) (w_files w) = map Inr docs) \<longrightarrow> j = length (w_files w))"
    using run_events_shape[of w lib wr fsys h] by blast
  have bad: "fst (run lib wr fsys h w) =
        map (progress_event (length (w_files w))) [1..<Suc (length pre)] @ [Error e]"
    if "w_files w = pre @ bad # rest" "map (PdfReader lib fsys) pre = map Inr ds"
      "PdfReader lib fsys bad = Inl e"
    unfolding run_first_unreadable[OF that] by simp
  have four: "\<exists>final. fst (run lib wr fsys h w) =
         [Progress 25 ''Merging file 1 of 4'', Progress 50 ''Merging file 2 of 4'',
          Progress 75 ''Merging file 3 of 4'', Progress 100 ''Merging file 4 of 4'', final] \<and>
         (final = Finished \<or> (\<exists>e. final = Error e))"
    if len: "length (w_files w) = 4" and r: "\<exists>docs. map (PdfReader lib fsys) (w_files w) = map Inr docs"
  proof -
    from shape r obtain final where
      ev: "fst (run lib wr fsys h w) =
        map (progress_event (length (w_files w))) [1..<Suc (length (w_files w))] @ [final]"
      and fin: "final = Finished \<or> (\<exists>e. final = Error e)"
      by blast
    have "map (progress_event 4) [1..<Suc 4] =
         [Progress 25 ''Merging file 1 of 4'', Progress 50 ''Merging file 2 of 4'',
          Progress 75 ''Merging file 3 of 4'', Progress 100 ''Merging file 4 of 4'']"
      unfolding upt_examples
      by (simp add: percent_value_examples percent_value_examples[unfolded One_nat_def]
          status_examples4 status_examples4[unfolded One_nat_def])
    with ev fin show ?thesis unfolding len by simp
  qed
  from shape bad four show ?thesis by blast
qed

theorem progress_events_in_file_order_witness:
  "length (w_files four_files_worker) = 4 \<and>
   map (PdfReader example_lib example_fs) (w_files four_files_worker)
     = map Inr [[10, 11], [20, 21, 22], [30], [10, 11]] \<and>
   fst (run example_lib (\<lambda>p c. WriteOk) example_fs (\<lambda>_. {}) four_files_worker) =
     [Progress 25 ''Merging file 1 of 4'', Progress 50 ''Merging file 2 of 4'',
      Progress 75 ''Merging file 3 of 4'', Progress 100 ''Merging file 4 of 4'', Finished]"
proof -
  let ?wr = "(\<lambda>p c. WriteOk) :: path \<Rightarrow> string + nat list \<Rightarrow> (string + nat list) write_result"
  let ?h = "(\<lambda>_. {}) :: heap"
  have len: "length (w_files four_files_worker) = 4" by simp
  have r: "map (PdfReader example_lib example_fs) (w_files four_files_worker)
     = map Inr [[10, 11], [20, 21, 22], [30], [10, 11]]"
    by (simp add: PdfReader_def)
  then have ex: "\<exists>docs. map (PdfReader example_lib example_fs) (w_files four_files_worker)
     = map Inr docs" by blast
  from progress_events_in_file_order[of four_files_worker example_lib ?wr example_fs ?h] len ex
  obtain final where ev: "fst (run example_lib ?wr example_fs ?h four_files_worker) =
     [Progress 25 ''Merging file 1 of 4'', Progress 50 ''Merging file 2 of 4'',
      Progress 75 ''Merging file 3 of 4'', Progress 100 ''Merging file 4 of 4'', final]"
    by blast
  have "last (fst (run example_lib ?wr example_fs ?h four_files_worker)) = Finished"
    unfolding run_all_readable[OF r] by simp
  with ev have "final = Finished" by simp
  with ev len r show ?thesis by simp
qed

text \<open>
  The claim as written has one progress event for every source file of every merge. A
  merge of two files whose first cannot be opened emits the error event alone.
\<close>

theorem unreadable_first_file_emits_no_progress:
  "length (w_files \<lparr>w_files = [''x'', ''a''], w_output = ''out'', w_excluded_pages = 0\<rparr>) = 2 \<and>
   fst (run example_lib (\<lambda>p c. WriteOk) example_fs (\<lambda>_. {})
          \<lparr>w_files = [''x'', ''a''], w_output = ''out'', w_excluded_pages = 0\<rparr>)
     = [Error (OpenFailed ''x'')]"
  by (simp add: run_def PdfReader_def)

subsection \<open>C3: the percentage of a progress event\<close>

text \<open>
  Claim C3, as the code has it. When the first \<open>k\<close> of \<open>n\<close> files can be read
  (\<open>1 \<le> k \<le> n\<close>), the \<open>k\<close>-th event of the run is the progress event with the status
  \<^verbatim>\<open>Merging file k of n\<close> and the percentage \<^verbatim>\<open>int((k / n) * 100)\<close>: the quotient as a
  double, times 100 as a double, truncated to an integer.
\<close>

theorem progress_event_after_kth_file:
  assumes "1 \<le> k" and "k \<le> length (w_files w)"
    and "map (PdfReader lib fsys) (take k (w_files w)) = map Inr docs"
  shows "percent k (length (w_files w)) =
           Inr (double_trunc (double_mul_nat (nearest_double k (length (w_files w))) 100)) \<and>
         fst (run lib wr fsys h w) ! (k - 1) =
           Progress (double_trunc (double_mul_nat (nearest_double k (length (w_files w))) 100))
             (''Merging file '' @ str_nat k @ '' of '' @ str_nat (length (w_files w)))"
proof -
  let ?n = "length (w_files w)"
  from assms(1,2) have "?n \<noteq> 0" by linarith
  then have p: "percent k ?n = Inr (percent_value k ?n)"
    by (rule percent_nonzero)
  from run_events_readable_prefix[OF assms(2,3), of wr h] obtain evs where
    ev: "fst (run lib wr fsys h w) = map (progress_event ?n) [1..<Suc k] @ evs" ..
  have "k - 1 < length (map (progress_event ?n) [1..<Suc k])" using assms(1) by simp
  then have "fst (run lib wr fsys h w) ! (k - 1) = map (progress_event ?n) [1..<Suc k] ! (k - 1)"
    unfolding ev by (simp add: nth_append del: upt_Suc)
  also have "\<dots> = progress_event ?n ([1..<Suc k] ! (k - 1))"
    using assms(1) by (simp del: upt_Suc)
  also have "[1..<Suc k] ! (k - 1) = k"
    using assms(1) by (simp del: upt_Suc)
  finally show ?thesis using p by (simp add: status_def)
qed

theorem progress_event_after_kth_file_witness:
  "(1::nat) \<le> 2 \<and> 2 \<le> length (w_files example_worker) \<and>
   map (PdfReader example_lib example_fs) (take 2 (w_files example_worker))
     = map Inr [[10, 11], [20, 21, 22]] \<and>
   percent 2 (length (w_files example_worker)) = Inr 66 \<and>
   fst (run example_lib (\<lambda>p c. WriteOk) example_fs (\<lambda>_. {}) example_worker) ! (2 - 1) =
     Progress 66 ''Merging file 2 of 3''"
proof -
  have 1: "(1::nat) \<le> 2" by simp
  have 2: "2 \<le> length (w_files example_worker)" by simp
  have 3: "map (PdfReader example_lib example_fs) (take 2 (w_files example_worker))
     = map Inr [[10, 11], [20, 21, 22]]"
    by (simp add: PdfReader_def)
  have len: "length (w_files example_worker) = 3" by simp
  note inst = progress_event_after_kth_file[OF 1 2 3, of "\<lambda>p c. WriteOk" "\<lambda>_. {}", unfolded len]
  have s: "''Merging file '' @ str_nat 2 @ '' of '' @ str_nat 3 = ''Merging file 2 of 3''"
    by (simp add: str_nat.simps digit_char_values)
  from inst 1 2 3 show ?thesis
    unfolding len percent_value_2_3 s by simp
qed

text \<open>
  The claim as written rounds. After the second of three files the code emits 66, and
  \<open>100 * 2 / 3\<close> rounds to 67.
\<close>

theorem percent_is_truncated_not_rounded:
  "fst (run example_lib (\<lambda>p c. WriteOk) example_fs (\<lambda>_. {1, 4, 6}) example_worker) ! 1 =
     Progress 66 ''Merging file 2 of 3'' \<and>
   length (w_files example_worker) = 3 \<and>
   round (100 * 2 / 3 :: real) = 67"
  unfolding example_run by (simp add: round_def)

subsection \<open>C8: what a launched job shares with the interface\<close>

text \<open>
  Claim C8, as the code has it. A launched worker holds the file list
  \<^verbatim>\<open>get_files()\<close> returned at launch, the output path, and the reference of the
  application's set of excluded pages, not a copy of the set. Whatever the interface does
  to the list widget while the worker runs, and however its slots interleave with the
  worker's steps, a worker that has ended has emitted the events and left the output of
  the undisturbed \<^verbatim>\<open>run\<close> on the launch-time file list and set, provided the slot
  \<^verbatim>\<open>apply_page_removal\<close> did not run in between; and the worker does end after finitely
  many steps. The slot \<^verbatim>\<open>apply_page_removal\<close> mutates the very set the worker reads: for
  an input of spaces only, the set behind the worker's reference is empty afterwards.
\<close>

theorem job_holds_list_copy_and_set_reference:
  "(merge_pdfs a output = Some w \<longrightarrow>
      w_files w = get_files a \<and> w_output w = output \<and> w_excluded_pages w = excluded_pages a) \<and>
   ((\<forall>act\<in>set acts. \<forall>input. act \<noteq> ApplyPageRemoval input) \<and>
    exec lib wr w acts (a, h, fsys, start w) = (a', h', fsys', t') \<and> \<not> t_running t' \<longrightarrow>
      (t_emitted t', fsys') = run lib wr fsys h w) \<and>
   (\<exists>k. \<not> t_running (snd (snd (snd (exec lib wr w (replicate k WorkerStep)
                                        (a, h, fsys, start w)))))) \<and>
   (merge_pdfs a output = Some w \<and> set input \<subseteq> {CHR '' ''} \<longrightarrow>
      fst (snd (apply_page_removal lib fsys h a input)) (w_excluded_pages w) = {})"
proof -
  have 1: "w_files w = get_files a \<and> w_output w = output \<and> w_excluded_pages w = excluded_pages a"
    if "merge_pdfs a output = Some w"
    using that by (auto simp: merge_pdfs_def split: if_splits)
  have 2: "(t_emitted t', fsys') = run lib wr fsys h w"
    if "\<forall>act\<in>set acts. \<forall>input. act \<noteq> ApplyPageRemoval input"
      and "exec lib wr w acts (a, h, fsys, start w) = (a', h', fsys', t')" and "\<not> t_running t'"
  proof -
    from exec_without_parser[OF that(1,2)]
    have "finish lib wr fsys' h w t' = finish lib wr fsys h w (start w)" by simp
    with finish_stopped[OF that(3)] finish_start show ?thesis by metis
  qed
  have 3: "\<exists>k. \<not> t_running (snd (snd (snd (exec lib wr w (replicate k WorkerStep)
                                        (a, h, fsys, start w)))))"
    using worker_steps_finish[of lib fsys "start w" "steps_left lib fsys (start w)" wr w a h]
    by blast
  have 4: "fst (snd (apply_page_removal lib fsys h a input)) (w_excluded_pages w) = {}"
    if "merge_pdfs a output = Some w" and "set input \<subseteq> {CHR '' ''}"
  proof -
    from that(2) have "filter (\<lambda>c. c \<noteq> CHR '' '') input = []"
      by (auto simp: filter_empty_conv)
    from apply_page_removal_empty[OF this, of lib fsys h a] 1[OF that(1)]
    show ?thesis by (simp split: sum.splits)
  qed
  from 1 2 3 4 show ?thesis by blast
qed

theorem job_holds_list_copy_and_set_reference_witness:
  "merge_pdfs two_docs_app ''out'' = Some two_docs_worker \<and>
   \<not> t_running (snd (snd (snd (exec example_lib (\<lambda>p c. WriteOk) two_docs_worker
        [WorkerStep, ListChanged [''b   [3 pages]''] ''Total pages: 2'', WorkerStep, WorkerStep,
         WorkerStep, WorkerStep, WorkerStep, WorkerStep, WorkerStep, WorkerStep, WorkerStep]
        (two_docs_app, (\<lambda>_. {1}), two_docs_fs, start two_docs_worker))))) \<and>
   (t_emitted (snd (snd (snd (exec example_lib (\<lambda>p c. WriteOk) two_docs_worker
        [WorkerStep, ListChanged [''b   [3 pages]''] ''Total pages: 2'', WorkerStep, WorkerStep,
         WorkerStep, WorkerStep, WorkerStep, WorkerStep, WorkerStep, WorkerStep, WorkerStep]
        (two_docs_app, (\<lambda>_. {1}), two_docs_fs, start two_docs_worker))))),
    fst (snd (snd (exec example_lib (\<lambda>p c. WriteOk) two_docs_worker
        [WorkerStep, ListChanged [''b   [3 pages]''] ''Total pages: 2'', WorkerStep, WorkerStep,
         WorkerStep, WorkerStep, WorkerStep, WorkerStep, WorkerStep, WorkerStep, WorkerStep]
        (two_docs_app, (\<lambda>_. {1}), two_docs_fs, start two_docs_worker)))))
     = run example_lib (\<lambda>p c. WriteOk) two_docs_fs (\<lambda>_. {1}) two_docs_worker \<and>
   snd (run example_lib (\<lambda>p c. WriteOk) two_docs_fs (\<lambda>_. {1}) two_docs_worker) ''out''
     = Some (Inr [11, 20, 21, 22]) \<and>
   fst (snd (apply_page_removal example_lib two_docs_fs (\<lambda>_. {1}) two_docs_app ''  ''))
     (w_excluded_pages two_docs_worker) = {}"
proof -
  let ?wr = "(\<lambda>p c. WriteOk) :: path \<Rightarrow> string + nat list \<Rightarrow> (string + nat list) write_result"
  let ?h = "(\<lambda>_. {1}) :: heap"
  let ?acts = "[WorkerStep, ListChanged [''b   [3 pages]''] ''Total pages: 2'', WorkerStep, WorkerStep,
         WorkerStep, WorkerStep, WorkerStep, WorkerStep, WorkerStep, WorkerStep, WorkerStep]"
  let ?s = "exec example_lib ?wr two_docs_worker ?acts
              (two_docs_app, ?h, two_docs_fs, start two_docs_worker)"
  have launch: "merge_pdfs two_docs_app ''out'' = Some two_docs_worker"
    by (simp add: merge_pdfs_def get_files_def)
  have noapply: "\<forall>act\<in>set ?acts. \<forall>input. act \<noteq> ApplyPageRemoval input" by simp
  have stopped: "\<not> t_running (snd (snd (snd ?s)))"
    by (simp add: step_defs)
  have ex: "?s = (fst ?s, fst (snd ?s), fst (snd (snd ?s)), snd (snd (snd ?s)))" by simp
  have sp: "set ''  '' \<subseteq> {CHR '' ''}" by simp
  note inst = job_holds_list_copy_and_set_reference[of two_docs_app "''out''" two_docs_worker ?acts
      example_lib ?wr ?h two_docs_fs "fst ?s" "fst (snd ?s)" "fst (snd (snd ?s))"
      "snd (snd (snd ?s))" "''  ''"]
  from inst launch noapply stopped ex sp
  have a: "(t_emitted (snd (snd (snd ?s))), fst (snd (snd ?s))) =
      run example_lib ?wr two_docs_fs ?h two_docs_worker"
    and b: "fst (snd (apply_page_removal example_lib two_docs_fs ?h two_docs_app ''  ''))
     (w_excluded_pages two_docs_worker) = {}"
    by blast+
  have r: "map (PdfReader example_lib two_docs_fs) (w_files two_docs_worker)
      = map Inr [[10, 11], [20, 21, 22]]"
    by (simp add: PdfReader_def)
  have c: "snd (run example_lib ?wr two_docs_fs ?h two_docs_worker) ''out''
     = Some (Inr [11, 20, 21, 22])"
    unfolding run_all_readable[OF r] by (simp add: enumerate_simps)
  from launch stopped a b c show ?thesis by blast
qed

text \<open>
  The claim as written has the running merge consume the exclusion set of launch time
  whatever the interface does. Launched with the set \<open>{1}\<close> on documents of 2 and 3
  pages, the undisturbed run writes the pages at positions 2 to 5. When
  \<^verbatim>\<open>apply_page_removal\<close> runs with the input \<^verbatim>\<open>2\<close> before the worker's first step, the
  worker writes the pages at positions 1, 3, 4 and 5.
\<close>

theorem parser_rerun_changes_running_merge:
  "merge_pdfs two_docs_app ''out'' = Some two_docs_worker \<and>
   snd (run example_lib (\<lambda>p c. WriteOk) two_docs_fs (\<lambda>_. {1}) two_docs_worker) ''out''
     = Some (Inr [11, 20, 21, 22]) \<and>
   \<not> t_running (snd (snd (snd (exec example_lib (\<lambda>p c. WriteOk) two_docs_worker
        [ApplyPageRemoval ''2'', WorkerStep, WorkerStep, WorkerStep, WorkerStep, WorkerStep,
         WorkerStep, WorkerStep, WorkerStep, WorkerStep, WorkerStep]
        (two_docs_app, (\<lambda>_. {1}), two_docs_fs, start two_docs_worker))))) \<and>
   fst (snd (snd (exec example_lib (\<lambda>p c. WriteOk) two_docs_worker
        [ApplyPageRemoval ''2'', WorkerStep, WorkerStep, WorkerStep, WorkerStep, WorkerStep,
         WorkerStep, WorkerStep, WorkerStep, WorkerStep, WorkerStep]
        (two_docs_app, (\<lambda>_. {1}), two_docs_fs, start two_docs_worker)))) ''out''
     = Some (Inr [10, 20, 21, 22])"
proof -
  have r: "map (PdfReader example_lib two_docs_fs) (w_files two_docs_worker)
      = map Inr [[10, 11], [20, 21, 22]]"
    by (simp add: PdfReader_def)
  have c: "snd (run example_lib (\<lambda>p c. WriteOk) two_docs_fs (\<lambda>_. {1}) two_docs_worker) ''out''
     = Some (Inr [11, 20, 21, 22])"
    unfolding run_all_readable[OF r] by (simp add: enumerate_simps)
  have ap: "apply_page_removal example_lib two_docs_fs (\<lambda>_. {1}) two_docs_app ''2'' =
      (Returned, (\<lambda>_. {1})(0 := {2}),
       two_docs_app\<lparr>page_count_label := ''Total pages: 4''\<rparr>)"
    by (simp add: apply_page_removal_def Let_def part_pages_def int_defs update_page_count_def
        get_files_def PdfReader_def str_nat.simps digit_char_values)
  have launch: "merge_pdfs two_docs_app ''out'' = Some two_docs_worker"
    by (simp add: merge_pdfs_def get_files_def)
  show ?thesis
    using launch c by (simp add: ap step_defs)
qed

end
